theory Spec2Isabelle
  imports Main "HOL-Library.Word"
begin

unbundle bit_operations_syntax

section \<open>MFAT: data model\<close>

text \<open>
  The library keeps all of its state in one statically allocated context. The model passes
  that context explicitly: a function that mutates the context in C takes a context and
  returns the new one. A C function that returns \<^verbatim>\<open>false\<close>, \<^verbatim>\<open>NULL\<close>
  or \<^verbatim>\<open>-1\<close> returns \<open>None\<close> (or \<open>Fail\<close>) here. Where the C code
  would divide by zero or read outside a block buffer, the model returns \<open>Trap\<close>.
\<close>

type_synonym u8 = "8 word"
type_synonym u32 = "32 word"

datatype 'a res = Ok 'a | Fail | Trap

text \<open>\<^verbatim>\<open>mfat_cached_block_t::state\<close> and \<^verbatim>\<open>mfat_partition_t::type\<close>.\<close>

datatype block_state = MFAT_INVALID | MFAT_VALID | MFAT_DIRTY

datatype part_type = MFAT_TYPE_UNKNOWN | MFAT_TYPE_FAT_UNDECIDED | MFAT_TYPE_FAT16 | MFAT_TYPE_FAT32

record mfat_cluster_pos =
  cluster_no :: u32
  block_in_cluster :: u32
  cluster_start_blk :: u32

record mfat_partition =
  ptype :: part_type
  first_block :: u32
  num_blocks :: u32
  blocks_per_cluster :: u32
  num_clusters :: u32
  blocks_per_fat :: u32
  num_fats :: u32
  num_reserved_blocks :: u32
  root_dir_block :: u32
  blocks_in_root_dir :: u32
  root_dir_cluster :: u32
  first_data_block :: u32
  boot :: bool

record mfat_file_info =
  part_no :: nat
  fsize :: u32
  first_cluster :: u32
  dir_entry_block :: u32
  dir_entry_offset :: u32

record mfat_file =
  is_open :: bool
  oflag :: int
  offset :: u32
  current_cluster :: u32
  info :: mfat_file_info

record mfat_cached_block =
  state :: block_state
  blk_no :: u32
  buf :: "u8 list"

text \<open>
  \<open>pri\<close> is the priority queue of slot indices: its last item is the least recently used
  slot.
\<close>

record mfat_cache =
  block :: "mfat_cached_block list"
  pri :: "nat list"

text \<open>
  The storage medium is reached through the two callbacks and the \<open>custom\<close> handle. The
  medium is a map from block numbers to block contents; the read callback returns the
  content of a block or fails, the write callback returns the changed medium or fails.
\<close>

type_synonym device = "u32 \<Rightarrow> u8 list"
type_synonym mfat_read_block_fun = "device \<Rightarrow> u32 \<Rightarrow> u8 list option"
type_synonym mfat_write_block_fun = "device \<Rightarrow> u32 \<Rightarrow> u8 list \<Rightarrow> device option"

record mfat_ctx =
  initialized :: bool
  active_partition :: int
  read_fun :: mfat_read_block_fun
  write_fun :: mfat_write_block_fun
  custom :: device
  partitions :: "mfat_partition list"
  files :: "mfat_file list"
  caches :: "mfat_cache list"

abbreviation (input) MFAT_NUM_CACHED_BLOCKS :: nat where "MFAT_NUM_CACHED_BLOCKS \<equiv> 2"
abbreviation (input) MFAT_NUM_FDS :: nat where "MFAT_NUM_FDS \<equiv> 4"
abbreviation (input) MFAT_NUM_PARTITIONS :: nat where "MFAT_NUM_PARTITIONS \<equiv> 4"
abbreviation (input) MFAT_CACHE_DATA :: nat where "MFAT_CACHE_DATA \<equiv> 0"
abbreviation (input) MFAT_CACHE_FAT :: nat where "MFAT_CACHE_FAT \<equiv> 1"
abbreviation (input) MFAT_NUM_CACHES :: nat where "MFAT_NUM_CACHES \<equiv> 2"

section \<open>Byte codec\<close>

text \<open>A pointer \<^verbatim>\<open>&buf[i]\<close> is the pair of the buffer and the index \<open>i\<close>.\<close>

definition mfat_min :: "u32 \<Rightarrow> u32 \<Rightarrow> u32" where
  "mfat_min a b = (if a < b then a else b)"

definition get_word :: "u8 list \<Rightarrow> nat \<Rightarrow> u32" where
  "get_word b i = ucast (b ! i) OR push_bit 8 (ucast (b ! (i + 1)))"

definition get_dword :: "u8 list \<Rightarrow> nat \<Rightarrow> u32" where
  "get_dword b i =
     ucast (b ! i) OR push_bit 8 (ucast (b ! (i + 1))) OR push_bit 16 (ucast (b ! (i + 2)))
       OR push_bit 24 (ucast (b ! (i + 3)))"

fun cmpbuf_from :: "u8 list \<Rightarrow> nat \<Rightarrow> u8 list \<Rightarrow> nat \<Rightarrow> nat \<Rightarrow> bool" where
  "cmpbuf_from a ia b ib 0 = True"
| "cmpbuf_from a ia b ib (Suc n) =
     (if a ! ia \<noteq> b ! ib then False else cmpbuf_from a (Suc ia) b (Suc ib) n)"

text \<open>\<^verbatim>\<open>_mfat_cmpbuf(&a[ia], &b[ib], nbyte)\<close>.\<close>

definition cmpbuf :: "u8 list \<Rightarrow> nat \<Rightarrow> u8 list \<Rightarrow> nat \<Rightarrow> nat \<Rightarrow> bool" where
  "cmpbuf a ia b ib nbyte = cmpbuf_from a ia b ib nbyte"

section \<open>Block device adapter and block cache\<close>

text \<open>
  The callbacks fill or consume a buffer of exactly 512 bytes; \<open>fit512\<close> makes the result
  of a read callback a 512-byte block whatever the medium holds.
\<close>

definition fit512 :: "u8 list \<Rightarrow> u8 list" where
  "fit512 d = (if length d = 512 then d else take 512 (d @ replicate 512 0))"

definition dev_read :: "mfat_ctx \<Rightarrow> u32 \<Rightarrow> u8 list option" where
  "dev_read s b = map_option fit512 (read_fun s (custom s) b)"

definition dev_write :: "mfat_ctx \<Rightarrow> u32 \<Rightarrow> u8 list \<Rightarrow> mfat_ctx option" where
  "dev_write s b d = map_option (\<lambda>m. s\<lparr>custom := m\<rparr>) (write_fun s (custom s) b d)"

text \<open>The cache-hit loop: the first slot that is not invalid and holds the block.\<close>

fun find_hit :: "mfat_cached_block list \<Rightarrow> u32 \<Rightarrow> nat \<Rightarrow> nat option" where
  "find_hit [] b i = None"
| "find_hit (cb # cbs) b i =
     (if state cb \<noteq> MFAT_INVALID \<and> blk_no cb = b then Some i else find_hit cbs b (Suc i))"

text \<open>
  The loop that moves the selected item to the front of the priority queue: each position
  receives the previous item, until the selected item's old position has been overwritten.
\<close>

fun pri_shift :: "nat \<Rightarrow> nat \<Rightarrow> nat list \<Rightarrow> nat list" where
  "pri_shift item_id prev_id [] = []"
| "pri_shift item_id prev_id (this_id # rest) =
     prev_id # (if this_id = item_id then rest else pri_shift item_id this_id rest)"

definition set_cache :: "mfat_ctx \<Rightarrow> nat \<Rightarrow> mfat_cache \<Rightarrow> mfat_ctx" where
  "set_cache s cache_type c = s\<lparr>caches := (caches s)[cache_type := c]\<rparr>"

definition set_block :: "mfat_ctx \<Rightarrow> nat \<Rightarrow> nat \<Rightarrow> mfat_cached_block \<Rightarrow> mfat_ctx" where
  "set_block s cache_type i cb =
     set_cache s cache_type
       ((caches s ! cache_type)\<lparr>block := (block (caches s ! cache_type))[i := cb]\<rparr>)"

definition get_block :: "mfat_ctx \<Rightarrow> nat \<Rightarrow> nat \<Rightarrow> mfat_cached_block" where
  "get_block s cache_type i = block (caches s ! cache_type) ! i"

text \<open>
  \<^verbatim>\<open>_mfat_get_cached_block\<close>. By default the least recently used slot is picked (the
  last item of the priority queue), unless a slot hits. The returned pointer is the index
  of the slot in the cache \<open>cache_type\<close>; \<open>None\<close> is \<^verbatim>\<open>NULL\<close>.
\<close>

definition select_item :: "mfat_cache \<Rightarrow> u32 \<Rightarrow> nat" where
  "select_item cache b =
     (case find_hit (block cache) b 0 of
        Some i \<Rightarrow> i
      | None \<Rightarrow> pri cache ! (length (block cache) - 1))"

definition get_cached_block :: "mfat_ctx \<Rightarrow> u32 \<Rightarrow> nat \<Rightarrow> nat option \<times> mfat_ctx" where
  "get_cached_block s b cache_type =
     (let cache = caches s ! cache_type;
          item_id = select_item cache b;
          s1 = set_cache s cache_type (cache\<lparr>pri := pri_shift item_id item_id (pri cache)\<rparr>);
          cached_block = get_block s1 cache_type item_id
      in if blk_no cached_block \<noteq> b then
           (case (if state cached_block = MFAT_DIRTY
                  then dev_write s1 (blk_no cached_block) (buf cached_block)
                  else Some s1) of
              None \<Rightarrow> (None, s1)
            | Some s2 \<Rightarrow>
                (Some item_id,
                 set_block s2 cache_type item_id
                   (cached_block\<lparr>blk_no := b, state := MFAT_INVALID\<rparr>)))
         else (Some item_id, s1))"

text \<open>\<^verbatim>\<open>_mfat_read_block\<close>.\<close>

definition read_block :: "mfat_ctx \<Rightarrow> u32 \<Rightarrow> nat \<Rightarrow> nat option \<times> mfat_ctx" where
  "read_block s block_no cache_type =
     (case get_cached_block s block_no cache_type of
        (None, s1) \<Rightarrow> (None, s1)
      | (Some i, s1) \<Rightarrow>
          (if state (get_block s1 cache_type i) = MFAT_INVALID then
             (case dev_read s1 block_no of
                None \<Rightarrow> (None, s1)
              | Some d \<Rightarrow>
                  (Some i,
                   set_block s1 cache_type i
                     ((get_block s1 cache_type i)\<lparr>buf := d, state := MFAT_VALID\<rparr>)))
           else (Some i, s1)))"

section \<open>FAT chain walker and cluster cursor\<close>

text \<open>The value of a FAT entry, as \<^verbatim>\<open>_mfat_next_cluster\<close> decodes it from the block.\<close>

definition fat_entry :: "mfat_partition \<Rightarrow> u8 list \<Rightarrow> nat \<Rightarrow> u32" where
  "fat_entry part b fat_block_offset =
     (if ptype part = MFAT_TYPE_FAT32 then get_dword b fat_block_offset AND 0x0fffffff
      else (let next_cluster = get_word b fat_block_offset
            in if next_cluster \<ge> 0xfff7 then next_cluster OR 0x0fff0000 else next_cluster))"

definition fat_offset :: "mfat_partition \<Rightarrow> u32 \<Rightarrow> u32" where
  "fat_offset part cluster = (if ptype part = MFAT_TYPE_FAT32 then 4 else 2) * cluster"

definition fat_block :: "mfat_partition \<Rightarrow> u32 \<Rightarrow> u32" where
  "fat_block part cluster =
     first_block part + num_reserved_blocks part + (fat_offset part cluster div 512)"

definition fat_block_offset :: "mfat_partition \<Rightarrow> u32 \<Rightarrow> nat" where
  "fat_block_offset part cluster = unat (fat_offset part cluster mod 512)"

text \<open>\<^verbatim>\<open>_mfat_next_cluster\<close>: \<open>None\<close> is \<^verbatim>\<open>false\<close>, \<open>Some c\<close> is the new value of \<^verbatim>\<open>*cluster\<close>.\<close>

definition next_cluster :: "mfat_ctx \<Rightarrow> mfat_partition \<Rightarrow> u32 \<Rightarrow> u32 option \<times> mfat_ctx" where
  "next_cluster s part cluster =
     (case read_block s (fat_block part cluster) MFAT_CACHE_FAT of
        (None, s1) \<Rightarrow> (None, s1)
      | (Some i, s1) \<Rightarrow>
          (let next_cluster =
                 fat_entry part (buf (get_block s1 MFAT_CACHE_FAT i)) (fat_block_offset part cluster)
           in if next_cluster = 0 \<or> next_cluster = 0x0ffffff7 then (None, s1)
              else (Some next_cluster, s1)))"

definition first_block_of_cluster :: "mfat_partition \<Rightarrow> u32 \<Rightarrow> u32" where
  "first_block_of_cluster part cluster =
     first_data_block part + ((cluster - 2) * blocks_per_cluster part)"

text \<open>\<^verbatim>\<open>_mfat_cluster_pos_init\<close>; the remainder by a zero cluster size is a trap.\<close>

definition cluster_pos_init :: "mfat_partition \<Rightarrow> u32 \<Rightarrow> u32 \<Rightarrow> mfat_cluster_pos res" where
  "cluster_pos_init part cluster offs =
     (if blocks_per_cluster part * 512 = 0 then Trap
      else Ok \<lparr>cluster_no = cluster,
               block_in_cluster = (offs mod (blocks_per_cluster part * 512)) div 512,
               cluster_start_blk = first_block_of_cluster part cluster\<rparr>)"

definition cluster_pos_init_from_file :: "mfat_partition \<Rightarrow> mfat_file \<Rightarrow> mfat_cluster_pos res" where
  "cluster_pos_init_from_file part f = cluster_pos_init part (current_cluster f) (offset f)"

text \<open>\<^verbatim>\<open>_mfat_cluster_pos_advance\<close>: \<open>None\<close> is \<^verbatim>\<open>false\<close>.\<close>

definition cluster_pos_advance ::
  "mfat_ctx \<Rightarrow> mfat_cluster_pos \<Rightarrow> mfat_partition \<Rightarrow> mfat_cluster_pos option \<times> mfat_ctx" where
  "cluster_pos_advance s cpos part =
     (let cpos1 = cpos\<lparr>block_in_cluster := block_in_cluster cpos + 1\<rparr>
      in if block_in_cluster cpos1 = blocks_per_cluster part then
           (case next_cluster s part (cluster_no cpos1) of
              (None, s1) \<Rightarrow> (None, s1)
            | (Some c, s1) \<Rightarrow>
                (Some (cpos1\<lparr>cluster_no := c,
                              cluster_start_blk := first_block_of_cluster part c,
                              block_in_cluster := 0\<rparr>), s1))
         else (Some cpos1, s))"

definition cluster_pos_blk_no :: "mfat_cluster_pos \<Rightarrow> u32" where
  "cluster_pos_blk_no cpos = cluster_start_blk cpos + block_in_cluster cpos"

definition is_eoc :: "u32 \<Rightarrow> bool" where
  "is_eoc cluster = (cluster \<ge> 0x0ffffff8)"

section \<open>Partition tables\<close>

definition is_fat_part_id :: "u32 \<Rightarrow> bool" where
  "is_fat_part_id ident \<longleftrightarrow> ident = 0x04 \<or> ident = 0x06 \<or> ident = 0x0e \<or> ident = 0x0b \<or> ident = 0x0c"

definition BDP_GUID :: "u8 list" where
  "BDP_GUID = [0xa2, 0xa0, 0xd0, 0xeb, 0xe5, 0xb9, 0x33, 0x44, 0x87, 0xc0, 0x68, 0xb6, 0xb7, 0x26,
     0x99, 0xc7]"

definition is_fat_part_guid :: "u8 list \<Rightarrow> nat \<Rightarrow> bool" where
  "is_fat_part_guid b i = (if cmpbuf b i BDP_GUID 0 16 then True else False)"

definition is_valid_bpb :: "u8 list \<Rightarrow> bool" where
  "is_valid_bpb bpb_buf =
     (if bpb_buf ! 510 \<noteq> 0x55 \<or> bpb_buf ! 511 \<noteq> 0xaa then False
      else if bpb_buf ! 0 \<noteq> 0xe9 \<and> \<not> (bpb_buf ! 0 = 0xeb \<and> bpb_buf ! 2 = 0x90) then False
      else (let bps = get_word bpb_buf 11
            in if bps \<noteq> 512 \<and> bps \<noteq> 1024 \<and> bps \<noteq> 2048 \<and> bps \<noteq> 4096 then False else True))"

definition set_partition :: "mfat_ctx \<Rightarrow> nat \<Rightarrow> mfat_partition \<Rightarrow> mfat_ctx" where
  "set_partition s i part = s\<lparr>partitions := (partitions s)[i := part]\<rparr>"

definition gpt_sig :: "u8 list" where
  "gpt_sig = [0x45, 0x46, 0x49, 0x20, 0x50, 0x41, 0x52, 0x54]"

text \<open>
  The loop of \<^verbatim>\<open>_mfat_decode_gpt\<close> over the partition entries. \<open>b\<close> is the block of
  entries that was read last. An entry that does not lie inside that block is a trap.
\<close>

function gpt_entries ::
  "mfat_ctx \<Rightarrow> u8 list \<Rightarrow> u32 \<Rightarrow> u32 \<Rightarrow> u32 \<Rightarrow> u32 \<Rightarrow> nat \<Rightarrow> unit res \<times> mfat_ctx" where
  "gpt_entries s b entries_block num_entries entry_size entry_offs i =
     (if of_nat i < num_entries \<and> i < MFAT_NUM_PARTITIONS then
        (case (if entry_offs mod 512 = 0 then
                 (case read_block s entries_block MFAT_CACHE_DATA of
                    (None, s1) \<Rightarrow> (None, s1)
                  | (Some k, s1) \<Rightarrow>
                      (Some (buf (get_block s1 MFAT_CACHE_DATA k), entries_block + 1, 0), s1))
               else (Some (b, entries_block, entry_offs), s)) of
           (None, s1) \<Rightarrow> (Fail, s1)
         | (Some (b1, entries_block1, entry_offs1), s1) \<Rightarrow>
             (if unat entry_offs1 + 49 > 512 then (Trap, s1)
              else
                (let e = unat entry_offs1;
                     part = partitions s1 ! i;
                     part1 = part\<lparr>first_block := get_dword b1 (e + 32),
                                   boot := (b1 ! (e + 48)) AND 0x04 \<noteq> 0\<rparr>;
                     part2 = (if is_fat_part_guid b1 e
                              then part1\<lparr>ptype := MFAT_TYPE_FAT_UNDECIDED\<rparr> else part1)
                 in gpt_entries (set_partition s1 i part2) b1 entries_block1 num_entries entry_size
                      (entry_offs1 + entry_size) (i + 1))))
      else (Ok (), s))"
  by pat_completeness auto
termination
  by (relation "measure (\<lambda>(s, b, entries_block, num_entries, entry_size, entry_offs, i).
        MFAT_NUM_PARTITIONS - i)") auto

declare gpt_entries.simps [simp del]

text \<open>\<^verbatim>\<open>_mfat_decode_gpt\<close>: \<open>Ok ()\<close> is \<^verbatim>\<open>true\<close>, \<open>Fail\<close> is \<^verbatim>\<open>false\<close>.\<close>

definition decode_gpt :: "mfat_ctx \<Rightarrow> unit res \<times> mfat_ctx" where
  "decode_gpt s =
     (case read_block s 1 MFAT_CACHE_DATA of
        (None, s1) \<Rightarrow> (Fail, s1)
      | (Some k, s1) \<Rightarrow>
          (let b = buf (get_block s1 MFAT_CACHE_DATA k)
           in if \<not> cmpbuf b 0 gpt_sig 0 8 then (Fail, s1)
              else gpt_entries s1 b (get_dword b 72) (get_dword b 80) (get_dword b 84) 0 0))"

text \<open>One partition entry of the MBR; the result is the context and \<^verbatim>\<open>found_valid_mbr\<close>.\<close>

definition mbr_entry :: "u8 list \<Rightarrow> mfat_ctx \<times> bool \<Rightarrow> nat \<Rightarrow> mfat_ctx \<times> bool" where
  "mbr_entry b sf i =
     (let s = fst sf;
          e = 446 + 16 * i;
          part = (partitions s ! i)\<lparr>boot := (b ! e) AND 0x80 \<noteq> 0\<rparr>;
          fat = is_fat_part_id (ucast (b ! (e + 4)));
          part1 = (if fat then part\<lparr>ptype := MFAT_TYPE_FAT_UNDECIDED\<rparr> else part);
          part2 = part1\<lparr>first_block := get_dword b (e + 8)\<rparr>
      in (set_partition s i part2, (if fat then True else snd sf)))"

definition decode_mbr :: "mfat_ctx \<Rightarrow> unit res \<times> mfat_ctx" where
  "decode_mbr s =
     (case read_block s 0 MFAT_CACHE_DATA of
        (None, s1) \<Rightarrow> (Fail, s1)
      | (Some k, s1) \<Rightarrow>
          (let b = buf (get_block s1 MFAT_CACHE_DATA k)
           in if b ! 510 = 0x55 \<and> b ! 511 = 0xaa then
                (case foldl (mbr_entry b) (s1, False) [0..<min 4 MFAT_NUM_PARTITIONS] of
                   (s2, found_valid_mbr) \<Rightarrow> (if found_valid_mbr then Ok () else Fail, s2))
              else (Fail, s1)))"

definition zero_partition :: mfat_partition where
  "zero_partition =
     \<lparr>ptype = MFAT_TYPE_UNKNOWN, first_block = 0, num_blocks = 0, blocks_per_cluster = 0,
      num_clusters = 0, blocks_per_fat = 0, num_fats = 0, num_reserved_blocks = 0,
      root_dir_block = 0, blocks_in_root_dir = 0, root_dir_cluster = 0, first_data_block = 0,
      boot = False\<rparr>"

definition decode_tableless :: "mfat_ctx \<Rightarrow> mfat_ctx" where
  "decode_tableless s =
     set_partition (s\<lparr>partitions := replicate MFAT_NUM_PARTITIONS zero_partition\<rparr>) 0
       (zero_partition\<lparr>ptype := MFAT_TYPE_FAT_UNDECIDED\<rparr>)"

text \<open>
  The body of the loop of \<^verbatim>\<open>_mfat_decode_partition_tables\<close> that reads the BPB of partition
  \<open>i\<close>: \<open>Fail\<close> is \<^verbatim>\<open>return false\<close>, \<open>Ok ()\<close> is the end of the iteration (also by
  \<^verbatim>\<open>continue\<close>), and the division by a zero number of blocks per cluster is a trap.
\<close>

definition decode_bpb :: "mfat_ctx \<Rightarrow> nat \<Rightarrow> unit res \<times> mfat_ctx" where
  "decode_bpb s i =
     (let part = partitions s ! i
      in if ptype part = MFAT_TYPE_UNKNOWN then (Ok (), s)
         else
           (case read_block s (first_block part) MFAT_CACHE_DATA of
              (None, s1) \<Rightarrow> (Fail, s1)
            | (Some k, s1) \<Rightarrow>
                (let b = buf (get_block s1 MFAT_CACHE_DATA k)
                 in if \<not> is_valid_bpb b
                    then (Ok (), set_partition s1 i (part\<lparr>ptype := MFAT_TYPE_UNKNOWN\<rparr>))
                    else
                      (let bytes_per_block = get_word b 11;
                           tot_sectors_16 = get_word b 19;
                           tot_sectors_32 = get_dword b 32;
                           blocks_per_fat_16 = get_word b 22;
                           blocks_per_fat_32 = get_dword b 36;
                           num_root_entries = get_word b 17;
                           part1 = part\<lparr>
                             blocks_per_cluster := ucast (b ! 13),
                             num_reserved_blocks := get_word b 14,
                             num_fats := ucast (b ! 16),
                             num_blocks := (if tot_sectors_16 \<noteq> 0 then tot_sectors_16
                                            else tot_sectors_32),
                             blocks_per_fat := (if blocks_per_fat_16 \<noteq> 0 then blocks_per_fat_16
                                                else blocks_per_fat_32),
                             blocks_in_root_dir := ((num_root_entries * 32) + (512 - 1)) div 512\<rparr>;
                           part2 = part1\<lparr>first_data_block :=
                             first_block part1 + num_reserved_blocks part1
                               + (num_fats part1 * blocks_per_fat part1) + blocks_in_root_dir part1\<rparr>
                       in if bytes_per_block \<noteq> 512
                          then (Ok (), set_partition s1 i (part2\<lparr>ptype := MFAT_TYPE_UNKNOWN\<rparr>))
                          else
                            (let root_ent_cnt = get_word b 17;
                                 root_dir_sectors = ((root_ent_cnt * 32) + (512 - 1)) div 512;
                                 data_sectors = num_blocks part2
                                   - (num_reserved_blocks part2
                                        + (num_fats part2 * blocks_per_fat part2) + root_dir_sectors)
                             in if blocks_per_cluster part2 = 0 then (Trap, set_partition s1 i part2)
                                else
                                  (let count_of_clusters = data_sectors div blocks_per_cluster part2;
                                       part3 = part2\<lparr>num_clusters := count_of_clusters + 1\<rparr>
                                   in if count_of_clusters < 4085
                                      then (Ok (), set_partition s1 i
                                              (part3\<lparr>ptype := MFAT_TYPE_UNKNOWN\<rparr>))
                                      else
                                        (let part4 = part3\<lparr>ptype :=
                                               (if count_of_clusters < 65525 then MFAT_TYPE_FAT16
                                                else MFAT_TYPE_FAT32)\<rparr>;
                                             part5 = (if ptype part4 = MFAT_TYPE_FAT16
                                                      then part4\<lparr>root_dir_block :=
                                                        first_data_block part4
                                                          - blocks_in_root_dir part4\<rparr>
                                                      else part4\<lparr>root_dir_cluster :=
                                                        get_dword b 44\<rparr>)
                                         in (Ok (), set_partition s1 i part5))))))))"

fun decode_bpbs :: "mfat_ctx \<Rightarrow> nat list \<Rightarrow> unit res \<times> mfat_ctx" where
  "decode_bpbs s [] = (Ok (), s)"
| "decode_bpbs s (i # is) =
     (case decode_bpb s i of
        (Ok u, s1) \<Rightarrow> decode_bpbs s1 is
      | (Fail, s1) \<Rightarrow> (Fail, s1)
      | (Trap, s1) \<Rightarrow> (Trap, s1))"

text \<open>\<^verbatim>\<open>_mfat_decode_partition_tables\<close>: GPT first, then MBR, then no partition table.\<close>

definition decode_partition_tables :: "mfat_ctx \<Rightarrow> unit res \<times> mfat_ctx" where
  "decode_partition_tables s =
     (case decode_gpt s of
        (Trap, s1) \<Rightarrow> (Trap, s1)
      | (Ok u, s1) \<Rightarrow> decode_bpbs s1 [0..<MFAT_NUM_PARTITIONS]
      | (Fail, s1) \<Rightarrow>
          (case decode_mbr s1 of
             (Trap, s2) \<Rightarrow> (Trap, s2)
           | (Ok u, s2) \<Rightarrow> decode_bpbs s2 [0..<MFAT_NUM_PARTITIONS]
           | (Fail, s2) \<Rightarrow> decode_bpbs (decode_tableless s2) [0..<MFAT_NUM_PARTITIONS]))"

section \<open>Path resolver\<close>

text \<open>
  A C string is the list of its bytes before the terminating NUL; reading the string at
  its length gives the NUL.
\<close>

definition cstr_at :: "u8 list \<Rightarrow> nat \<Rightarrow> u8" where
  "cstr_at path pos = (if pos < length path then path ! pos else 0)"

text \<open>
  \<^verbatim>\<open>_mfat_canonicalize_char\<close>, on the character codes: \<open>A\<close> is 0x41, \<open>Z\<close> 0x5a, \<open>0\<close> 0x30,
  \<open>9\<close> 0x39, \<open>a\<close> 0x61, \<open>z\<close> 0x7a, and the other valid characters are
  \<^verbatim>\<open>$ % - _ @ ~ ` ! ( ) { } ^ # &\<close>. An invalid character becomes \<open>!\<close> (0x21).
\<close>

definition canonicalize_char :: "u8 \<Rightarrow> u8" where
  "canonicalize_char c =
     (if (c \<ge> 0x41 \<and> c \<le> 0x5a) \<or> (c \<ge> 0x30 \<and> c \<le> 0x39) \<or> c = 0x24 \<or> c = 0x25 \<or> c = 0x2d
         \<or> c = 0x5f \<or> c = 0x40 \<or> c = 0x7e \<or> c = 0x60 \<or> c = 0x21 \<or> c = 0x28 \<or> c = 0x29
         \<or> c = 0x7b \<or> c = 0x7d \<or> c = 0x5e \<or> c = 0x23 \<or> c = 0x26 then c
      else if c \<ge> 0x61 \<and> c \<le> 0x7a then c - 0x61 + 0x41
      else 0x21)"

text \<open>
  The two extraction loops of \<^verbatim>\<open>_mfat_canonicalize_fname\<close>. \<open>name\<close> is the part of the
  array \<^verbatim>\<open>name\<close> written so far, so \<^verbatim>\<open>npos\<close> is its length. The result is the last
  character read, the position after it and the name. The separators are \<open>.\<close> (0x2e),
  \<open>/\<close> (0x2f) and \<open>\\<close> (0x5c).
\<close>

function name_part :: "u8 list \<Rightarrow> nat \<Rightarrow> u8 list \<Rightarrow> u8 \<times> nat \<times> u8 list" where
  "name_part path pos name =
     (let c = cstr_at path pos
      in if c = 0 \<or> c = 0x2e \<or> c = 0x2f \<or> c = 0x5c then (c, pos + 1, name)
         else name_part path (pos + 1)
                (if length name < 8 then name @ [canonicalize_char c] else name))"
  by pat_completeness auto
termination
  by (relation "measure (\<lambda>(path, pos, name). length path - pos)")
    (auto simp: cstr_at_def split: if_splits)

declare name_part.simps [simp del]

function ext_part :: "u8 list \<Rightarrow> nat \<Rightarrow> u8 list \<Rightarrow> u8 \<times> nat \<times> u8 list" where
  "ext_part path pos name =
     (let c = cstr_at path pos
      in if c = 0 \<or> c = 0x2f \<or> c = 0x5c then (c, pos + 1, name)
         else ext_part path (pos + 1)
                (if length name < 11 then name @ [canonicalize_char c] else name))"
  by pat_completeness auto
termination
  by (relation "measure (\<lambda>(path, pos, name). length path - pos)")
    (auto simp: cstr_at_def split: if_splits)

declare ext_part.simps [simp del]

text \<open>
  One round of the \<^verbatim>\<open>do\<close> loop of \<^verbatim>\<open>_mfat_canonicalize_fname\<close>, from \<open>next_idx\<close>:
  the space-padded 11-byte name and the new \<open>next_idx\<close> (\<open>-1\<close> after the last path part).
\<close>

definition canonicalize_round :: "u8 list \<Rightarrow> nat \<Rightarrow> u8 list \<times> int" where
  "canonicalize_round path next_idx =
     (case name_part path next_idx [] of
        (c, pos, name) \<Rightarrow>
          (let name1 = name @ replicate (8 - length name) 0x20
           in case (if c = 0x2e then ext_part path pos name1 else (c, pos, name1)) of
                (c1, pos1, name2) \<Rightarrow>
                  (let name3 = name2 @ replicate (11 - length name2) 0x20
                   in (name3,
                       if (c1 = 0x2f \<or> c1 = 0x5c) \<and> cstr_at path pos1 \<noteq> 0 then int pos1
                       else - 1))))"

text \<open>
  The \<^verbatim>\<open>do\<close> loop: empty path parts and \<^verbatim>\<open>./\<close> are skipped. The loop ends because
  \<open>next_idx\<close> grows and stays below the length of the path; \<open>canonicalize_loop\<close> makes the
  bound explicit (an index beyond the path cannot be reached).
\<close>

function canonicalize_loop :: "u8 list \<Rightarrow> nat \<Rightarrow> u8 list \<times> int" where
  "canonicalize_loop path next_idx =
     (case canonicalize_round path next_idx of
        (name, next_idx1) \<Rightarrow>
          (if next_idx1 \<ge> 0 \<and> cmpbuf name 0 (replicate 11 0x20) 0 11
              \<and> next_idx < nat next_idx1 \<and> nat next_idx1 < length path
           then canonicalize_loop path (nat next_idx1)
           else (name, next_idx1)))"
  by pat_completeness auto
termination
  by (relation "measure (\<lambda>(path, next_idx). length path - next_idx)") auto

declare canonicalize_loop.simps [simp del]

definition canonicalize_fname :: "u8 list \<Rightarrow> u8 list \<times> int" where
  "canonicalize_fname path = canonicalize_loop path 0"

text \<open>
  The loop of \<^verbatim>\<open>_mfat_find_file\<close> over the 32-byte entries of one directory block,
  from the byte offset \<open>offs\<close>: it ends at an entry whose first byte is zero
  (\<^verbatim>\<open>no_more_entries\<close>), at an entry whose first 11 bytes are the name looked for
  (\<^verbatim>\<open>found_entry\<close>), or at the end of the block.
\<close>

datatype scan_result = NoMoreEntries | FoundEntry nat | NotInBlock

function scan_block :: "u8 list \<Rightarrow> u8 list \<Rightarrow> nat \<Rightarrow> scan_result" where
  "scan_block b fname offs =
     (if offs < 512 then
        (if b ! offs = 0x00 then NoMoreEntries
         else if cmpbuf b offs fname 0 11 then FoundEntry offs
         else scan_block b fname (offs + 32))
      else NotInBlock)"
  by pat_completeness auto
termination
  by (relation "measure (\<lambda>(b, fname, offs). 512 - offs)") auto

declare scan_block.simps [simp del]

text \<open>
  How the loop over the blocks of one directory ends: \<^verbatim>\<open>return false\<close>, a trap, a
  matching entry for the last path part (in the cache slot \<open>k\<close>, at the byte offset
  \<open>offs\<close> of its buffer), a matching directory for a parent part (with the cluster
  position of the child directory), the end of the directory (\<^verbatim>\<open>no_more_entries\<close>), or
  the block counter \<^verbatim>\<open>blocks_left\<close> reaching zero.
\<close>

datatype dir_result =
  DirFalse | DirTrap | DirFile nat nat | DirDescend mfat_cluster_pos | DirNoMore
  | DirBlocksDone mfat_cluster_pos

text \<open>
  The \<^verbatim>\<open>for\<close> loop over the directory blocks. On entry \<^verbatim>\<open>file_entry\<close> is \<^verbatim>\<open>NULL\<close> and
  \<^verbatim>\<open>no_more_entries\<close> is false, so the loop condition is \<open>blocks_left > 0\<close>. The source
  counts \<^verbatim>\<open>++blocks_left\<close> after each block, in 32 bits.
\<close>

definition dir_next_block ::
  "mfat_ctx \<Rightarrow> mfat_cluster_pos \<Rightarrow> mfat_partition \<Rightarrow> mfat_cluster_pos option \<times> mfat_ctx" where
  "dir_next_block s cpos part =
     (if cluster_no cpos \<noteq> 0 then cluster_pos_advance s cpos part
      else (Some (cpos\<lparr>block_in_cluster := block_in_cluster cpos + 1\<rparr>), s))"

function dir_blocks ::
  "mfat_ctx \<Rightarrow> mfat_partition \<Rightarrow> u8 list \<Rightarrow> bool \<Rightarrow> mfat_cluster_pos \<Rightarrow> u32
     \<Rightarrow> dir_result \<times> mfat_ctx" where
  "dir_blocks s part fname is_parent_dir cpos blocks_left =
     (if blocks_left > 0 then
        (case read_block s (cluster_pos_blk_no cpos) MFAT_CACHE_DATA of
           (None, s1) \<Rightarrow> (DirFalse, s1)
         | (Some k, s1) \<Rightarrow>
             (let b = buf (get_block s1 MFAT_CACHE_DATA k)
              in case scan_block b fname 0 of
                   FoundEntry offs \<Rightarrow>
                     (if is_parent_dir then
                        (if (b ! (offs + 11)) AND 0x10 = 0 then (DirFalse, s1)
                         else
                           (case cluster_pos_init part
                                   (push_bit 16 (get_word b (offs + 20)) OR get_word b (offs + 26)) 0 of
                              Ok cpos1 \<Rightarrow> (DirDescend cpos1, s1)
                            | Fail \<Rightarrow> (DirFalse, s1)
                            | Trap \<Rightarrow> (DirTrap, s1)))
                      else (DirFile k offs, s1))
                 | NoMoreEntries \<Rightarrow>
                     (case dir_next_block s1 cpos part of
                        (None, s2) \<Rightarrow> (DirFalse, s2)
                      | (Some cpos1, s2) \<Rightarrow> (DirNoMore, s2))
                 | NotInBlock \<Rightarrow>
                     (case dir_next_block s1 cpos part of
                        (None, s2) \<Rightarrow> (DirFalse, s2)
                      | (Some cpos1, s2) \<Rightarrow>
                          dir_blocks s2 part fname is_parent_dir cpos1 (blocks_left + 1))))
      else (DirBlocksDone cpos, s))"
  by pat_completeness auto
termination
proof (relation "measure (\<lambda>(s, part, fname, is_parent_dir, cpos, blocks_left).
         if blocks_left = 0 then 0 else 2 ^ 32 - unat blocks_left)", goal_cases)
  case 1
  show ?case by simp
next
  case (2 s part fname is_parent_dir cpos blocks_left)
  from 2(1) have nz: "blocks_left \<noteq> 0" by auto
  have lt: "unat blocks_left < 2 ^ 32" using unsigned_less [of blocks_left] by simp
  show ?case
  proof (cases "blocks_left + 1 = 0")
    case True
    with nz lt show ?thesis by simp
  next
    case False
    then have "unat (blocks_left + 1) = unat blocks_left + 1"
      using unatSuc [of blocks_left] by (simp add: add.commute)
    with False nz lt show ?thesis by simp
  qed
qed

declare dir_blocks.simps [simp del]

text \<open>
  The \<^verbatim>\<open>while\<close> loop of \<^verbatim>\<open>_mfat_find_file\<close> over the parts of the path, from the byte
  \<open>path_pos\<close> of the path. The result is the cache slot and the byte offset of the
  directory entry found (\<^verbatim>\<open>block\<close> and \<^verbatim>\<open>file_entry\<close>); \<open>Fail\<close> is \<^verbatim>\<open>return false\<close>.
  The loop ends because \<open>path_pos\<close> grows and stays below the length of the path; the
  definition makes the bound explicit.
\<close>

function find_loop ::
  "mfat_ctx \<Rightarrow> mfat_partition \<Rightarrow> u8 list \<Rightarrow> nat \<Rightarrow> mfat_cluster_pos \<Rightarrow> u32
     \<Rightarrow> (nat \<times> nat) res \<times> mfat_ctx" where
  "find_loop s part path path_pos cpos blocks_left =
     (case canonicalize_fname (drop path_pos path) of
        (fname, name_pos) \<Rightarrow>
          (let is_parent_dir = (name_pos \<ge> 0);
               blocks_left1 = (if cluster_no cpos \<noteq> 0 then 0xffffffff else blocks_left)
           in case dir_blocks s part fname is_parent_dir cpos blocks_left1 of
                (DirFalse, s1) \<Rightarrow> (Fail, s1)
              | (DirTrap, s1) \<Rightarrow> (Trap, s1)
              | (DirFile k offs, s1) \<Rightarrow> (Ok (k, offs), s1)
              | (DirNoMore, s1) \<Rightarrow> (Fail, s1)
              | (DirDescend cpos1, s1) \<Rightarrow>
                  (if is_parent_dir \<and> 0 < name_pos \<and> path_pos + nat name_pos < length path
                   then find_loop s1 part path (path_pos + nat name_pos) cpos1 0xffffffff
                   else (Fail, s1))
              | (DirBlocksDone cpos1, s1) \<Rightarrow>
                  (if is_parent_dir \<and> 0 < name_pos \<and> path_pos + nat name_pos < length path
                   then find_loop s1 part path (path_pos + nat name_pos) cpos1 0
                   else (Fail, s1))))"
  by pat_completeness auto
termination
proof (relation "measure (\<lambda>(s, part, path, path_pos, cpos, blocks_left). length path - path_pos)",
    goal_cases)
  case 1
  show ?case by simp
next
  case 2
  then show ?case by auto
next
  case 3
  then show ?case by auto
qed

declare find_loop.simps [simp del]

text \<open>
  \<^verbatim>\<open>_mfat_find_file\<close>. The result is the file information, \<^verbatim>\<open>is_dir\<close> and \<^verbatim>\<open>exists\<close>,
  which the source writes through its pointer arguments just before it returns true.
\<close>

definition find_file ::
  "mfat_ctx \<Rightarrow> nat \<Rightarrow> u8 list \<Rightarrow> (mfat_file_info \<times> bool \<times> bool) res \<times> mfat_ctx" where
  "find_file s pno path =
     (let part = partitions s ! pno
      in case (if ptype part = MFAT_TYPE_FAT32
               then (case cluster_pos_init part (root_dir_cluster part) 0 of
                       Ok cpos \<Rightarrow> Ok (cpos, 0xffffffff)
                     | Fail \<Rightarrow> Fail
                     | Trap \<Rightarrow> Trap)
               else Ok (\<lparr>cluster_no = 0, block_in_cluster = 0,
                          cluster_start_blk = root_dir_block part\<rparr>, blocks_in_root_dir part)) of
           Trap \<Rightarrow> (Trap, s)
         | Fail \<Rightarrow> (Fail, s)
         | Ok (cpos, blocks_left) \<Rightarrow>
             (case find_loop s part path 0 cpos blocks_left of
                (Trap, s1) \<Rightarrow> (Trap, s1)
              | (Fail, s1) \<Rightarrow> (Fail, s1)
              | (Ok (k, offs), s1) \<Rightarrow>
                  (let blk = get_block s1 MFAT_CACHE_DATA k;
                       b = buf blk;
                       finfo = \<lparr>part_no = pno,
                                fsize = get_dword b (offs + 28),
                                first_cluster =
                                  push_bit 16 (get_word b (offs + 20)) OR get_word b (offs + 26),
                                dir_entry_block = blk_no blk,
                                dir_entry_offset = of_nat offs\<rparr>
                   in if b ! offs \<noteq> 0x00 \<and> b ! offs \<noteq> 0xe5
                      then (Ok (finfo, (b ! (offs + 11)) AND 0x10 \<noteq> 0, True), s1)
                      else (Ok (finfo, False, False), s1))))"

section \<open>File descriptor layer\<close>

record mfat_time =
  year :: "16 word"
  month :: u8
  day :: u8
  hour :: u8
  minute :: u8
  second :: u8

record mfat_stat =
  st_mode :: u32
  st_size :: u32
  st_mtim :: mfat_time

abbreviation (input) MFAT_O_RDONLY :: int where "MFAT_O_RDONLY \<equiv> 1"
abbreviation (input) MFAT_O_WRONLY :: int where "MFAT_O_WRONLY \<equiv> 2"
abbreviation (input) MFAT_O_RDWR :: int where "MFAT_O_RDWR \<equiv> 3"
abbreviation (input) MFAT_O_CREAT :: int where "MFAT_O_CREAT \<equiv> 8"
abbreviation (input) MFAT_SEEK_SET :: int where "MFAT_SEEK_SET \<equiv> 0"
abbreviation (input) MFAT_SEEK_CUR :: int where "MFAT_SEEK_CUR \<equiv> 1"
abbreviation (input) MFAT_SEEK_END :: int where "MFAT_SEEK_END \<equiv> 2"

text \<open>\<^verbatim>\<open>_mfat_get_file\<close>: the index of the open file, or \<open>None\<close> for \<^verbatim>\<open>NULL\<close>.\<close>

definition get_file :: "mfat_ctx \<Rightarrow> int \<Rightarrow> nat option" where
  "get_file s fd =
     (if fd < 0 \<or> fd \<ge> int MFAT_NUM_FDS then None
      else if \<not> is_open (files s ! nat fd) then None
      else Some (nat fd))"

definition set_file :: "mfat_ctx \<Rightarrow> nat \<Rightarrow> mfat_file \<Rightarrow> mfat_ctx" where
  "set_file s fd f = s\<lparr>files := (files s)[fd := f]\<rparr>"

text \<open>
  \<^verbatim>\<open>_mfat_dir_entry_to_stat\<close>, for the directory entry at the byte offset \<open>e\<close> of the
  block \<open>b\<close>. The read, write and execute bits of the mode are 0x16d and 0x92.
\<close>

definition dir_entry_to_stat :: "u8 list \<Rightarrow> nat \<Rightarrow> mfat_stat" where
  "dir_entry_to_stat b e =
     (let attr = (ucast (b ! (e + 11)) :: u32);
          st_mode0 = (0x0100 OR 0x0020 OR 0x0004 OR 0x0040 OR 0x0008 OR 0x0001 :: u32);
          st_mode1 = (if attr AND 0x01 = 0 then st_mode0 OR (0x0080 OR 0x0010 OR 0x0002)
                      else st_mode0);
          st_mode2 = (if attr AND 0x10 \<noteq> 0 then st_mode1 OR 0x4000 else st_mode1 OR 0x8000);
          time = get_word b (e + 22);
          date = get_word b (e + 24)
      in \<lparr>st_mode = st_mode2,
          st_size = get_dword b (e + 28),
          st_mtim = \<lparr>year = ucast (drop_bit 9 date + 1980),
                      month = ucast (drop_bit 5 date AND 15),
                      day = ucast (date AND 31),
                      hour = ucast (drop_bit 11 time),
                      minute = ucast (drop_bit 5 time AND 63),
                      second = ucast ((time AND 31) * 2)\<rparr>\<rparr>)"

text \<open>\<^verbatim>\<open>_mfat_sync_impl\<close>; the result of the write callback is not looked at.\<close>

definition sync_block :: "mfat_ctx \<Rightarrow> nat \<times> nat \<Rightarrow> mfat_ctx" where
  "sync_block s ji =
     (let cb = get_block s (fst ji) (snd ji)
      in if state cb = MFAT_DIRTY then
           (let s1 = (case dev_write s (blk_no cb) (buf cb) of None \<Rightarrow> s | Some s' \<Rightarrow> s')
            in set_block s1 (fst ji) (snd ji) (cb\<lparr>state := MFAT_VALID\<rparr>))
         else s)"

definition sync_impl :: "mfat_ctx \<Rightarrow> mfat_ctx" where
  "sync_impl s =
     foldl sync_block s
       (concat (map (\<lambda>j. map (\<lambda>i. (j, i)) [0..<length (block (caches s ! j))])
          [0..<MFAT_NUM_CACHES]))"

text \<open>
  \<^verbatim>\<open>_mfat_fstat_impl\<close>; a directory entry that does not lie inside the block is a trap.
\<close>

definition fstat_impl :: "mfat_ctx \<Rightarrow> mfat_file_info \<Rightarrow> mfat_stat res \<times> mfat_ctx" where
  "fstat_impl s finfo =
     (case read_block s (dir_entry_block finfo) MFAT_CACHE_DATA of
        (None, s1) \<Rightarrow> (Fail, s1)
      | (Some k, s1) \<Rightarrow>
          (if unat (dir_entry_offset finfo) + 32 > 512 then (Trap, s1)
           else (Ok (dir_entry_to_stat (buf (get_block s1 MFAT_CACHE_DATA k))
                       (unat (dir_entry_offset finfo))), s1)))"

definition stat_impl :: "mfat_ctx \<Rightarrow> u8 list \<Rightarrow> mfat_stat res \<times> mfat_ctx" where
  "stat_impl s path =
     (case find_file s (nat (active_partition s)) path of
        (Trap, s1) \<Rightarrow> (Trap, s1)
      | (Fail, s1) \<Rightarrow> (Fail, s1)
      | (Ok (finfo, is_dir, exists), s1) \<Rightarrow>
          (if \<not> exists then (Fail, s1) else fstat_impl s1 finfo))"

text \<open>The search of \<^verbatim>\<open>_mfat_open_impl\<close> for the next free file descriptor, from \<open>fd\<close>.\<close>

fun free_fd :: "mfat_file list \<Rightarrow> nat \<Rightarrow> nat" where
  "free_fd [] fd = fd"
| "free_fd (f # fs) fd = (if \<not> is_open f then fd else free_fd fs (Suc fd))"

text \<open>
  \<^verbatim>\<open>_mfat_open_impl\<close>. The file information is written into the file descriptor as soon
  as the lookup returns true, before the checks that can still refuse the file.
\<close>

definition open_impl :: "mfat_ctx \<Rightarrow> u8 list \<Rightarrow> int \<Rightarrow> int res \<times> mfat_ctx" where
  "open_impl s path oflg =
     (let fd = free_fd (take MFAT_NUM_FDS (files s)) 0
      in if fd \<ge> MFAT_NUM_FDS then (Fail, s)
         else
           (case find_file s (nat (active_partition s)) path of
              (Trap, s1) \<Rightarrow> (Trap, s1)
            | (Fail, s1) \<Rightarrow> (Fail, s1)
            | (Ok (finfo, is_dir, exists), s1) \<Rightarrow>
                (let f = (files s1 ! fd)\<lparr>info := finfo\<rparr>;
                     s2 = set_file s1 fd f
                 in if is_dir then (Fail, s2)
                    else if \<not> exists then (Fail, s2)
                    else (Ok (int fd),
                          set_file s2 fd
                            (f\<lparr>is_open := True, oflag := oflg,
                               current_cluster := first_cluster (info f), offset := 0\<rparr>)))))"

definition close_impl :: "mfat_ctx \<Rightarrow> nat \<Rightarrow> int res \<times> mfat_ctx" where
  "close_impl s fd =
     (let s1 = (if (oflag (files s ! fd)) AND MFAT_O_WRONLY \<noteq> 0 then sync_impl s else s)
      in (Ok 0, set_file s1 fd ((files s1 ! fd)\<lparr>is_open := False\<rparr>)))"

text \<open>
  The three phases of \<^verbatim>\<open>_mfat_read_impl\<close>. Each returns the cluster position, the
  number of bytes read so far and the bytes copied to the target buffer so far; \<open>None\<close> is
  \<^verbatim>\<open>return -1\<close>.
\<close>

definition read_head ::
  "mfat_ctx \<Rightarrow> mfat_partition \<Rightarrow> mfat_file \<Rightarrow> mfat_cluster_pos \<Rightarrow> u32
     \<Rightarrow> (mfat_cluster_pos \<times> u32 \<times> u8 list) option \<times> mfat_ctx" where
  "read_head s part f cpos nbyte =
     (let block_offset = offset f mod 512
      in if block_offset \<noteq> 0 then
           (case read_block s (cluster_pos_blk_no cpos) MFAT_CACHE_DATA of
              (None, s1) \<Rightarrow> (None, s1)
            | (Some k, s1) \<Rightarrow>
                (let tail_bytes_in_block = 512 - block_offset;
                     bytes_to_copy = mfat_min tail_bytes_in_block nbyte;
                     out = take (unat bytes_to_copy)
                             (drop (unat block_offset) (buf (get_block s1 MFAT_CACHE_DATA k)))
                 in if bytes_to_copy = tail_bytes_in_block then
                      (case cluster_pos_advance s1 cpos part of
                         (None, s2) \<Rightarrow> (None, s2)
                       | (Some cpos1, s2) \<Rightarrow> (Some (cpos1, bytes_to_copy, out), s2))
                    else (Some (cpos, bytes_to_copy, out), s1)))
         else (Some (cpos, 0, []), s))"

function read_body ::
  "mfat_ctx \<Rightarrow> mfat_partition \<Rightarrow> mfat_cluster_pos \<Rightarrow> u32 \<Rightarrow> u32 \<Rightarrow> u8 list
     \<Rightarrow> (mfat_cluster_pos \<times> u32 \<times> u8 list) option \<times> mfat_ctx" where
  "read_body s part cpos nbyte bytes_read out =
     (if nbyte - bytes_read \<ge> 512 then
        (if is_eoc (cluster_no cpos) then (None, s)
         else
           (case dev_read s (cluster_pos_blk_no cpos) of
              None \<Rightarrow> (None, s)
            | Some d \<Rightarrow>
                (case cluster_pos_advance s cpos part of
                   (None, s1) \<Rightarrow> (None, s1)
                 | (Some cpos1, s1) \<Rightarrow>
                     read_body s1 part cpos1 nbyte (bytes_read + 512) (out @ d))))
      else (Some (cpos, bytes_read, out), s))"
  by pat_completeness auto
termination
proof (relation "measure (\<lambda>(s, part, cpos, nbyte, bytes_read, out). unat (nbyte - bytes_read))",
    goal_cases)
  case 1
  show ?case by simp
next
  case (2 s part cpos nbyte bytes_read out)
  from 2(1) have le: "unat (512 :: u32) \<le> unat (nbyte - bytes_read)"
    by (simp only: word_le_nat_alt)
  from 2(1) have "unat (nbyte - bytes_read - 512) = unat (nbyte - bytes_read) - unat (512 :: u32)"
    by (rule unat_sub)
  with le have "unat (nbyte - bytes_read - 512) < unat (nbyte - bytes_read)" by simp
  then show ?case by (simp add: diff_diff_eq)
qed

declare read_body.simps [simp del]

definition read_tail ::
  "mfat_ctx \<Rightarrow> mfat_cluster_pos \<Rightarrow> u32 \<Rightarrow> u32 \<Rightarrow> u8 list \<Rightarrow> (u32 \<times> u8 list) option \<times> mfat_ctx"
  where
  "read_tail s cpos nbyte bytes_read out =
     (if bytes_read < nbyte then
        (if is_eoc (cluster_no cpos) then (None, s)
         else
           (case read_block s (cluster_pos_blk_no cpos) MFAT_CACHE_DATA of
              (None, s1) \<Rightarrow> (None, s1)
            | (Some k, s1) \<Rightarrow>
                (let bytes_to_copy = nbyte - bytes_read
                 in (Some (bytes_read + bytes_to_copy,
                           out @ take (unat bytes_to_copy) (buf (get_block s1 MFAT_CACHE_DATA k))),
                     s1))))
      else (Some (bytes_read, out), s))"

text \<open>
  \<^verbatim>\<open>_mfat_read_impl\<close> for the open file \<open>fd\<close>. The result is the return value and the
  bytes copied to the target buffer.
\<close>

definition read_impl :: "mfat_ctx \<Rightarrow> nat \<Rightarrow> u32 \<Rightarrow> (int \<times> u8 list) res \<times> mfat_ctx" where
  "read_impl s fd nbyte0 =
     (let f = files s ! fd
      in if (oflag f) AND MFAT_O_RDONLY = 0 then (Fail, s)
         else
           (let nbyte = (if nbyte0 > fsize (info f) - offset f then fsize (info f) - offset f
                         else nbyte0)
            in if nbyte = 0 then (Ok (0, []), s)
               else
                 (let part = partitions s ! part_no (info f)
                  in case cluster_pos_init_from_file part f of
                       Trap \<Rightarrow> (Trap, s)
                     | Fail \<Rightarrow> (Fail, s)
                     | Ok cpos \<Rightarrow>
                         (case read_head s part f cpos nbyte of
                            (None, s1) \<Rightarrow> (Fail, s1)
                          | (Some (cpos1, bytes_read1, out1), s1) \<Rightarrow>
                              (case read_body s1 part cpos1 nbyte bytes_read1 out1 of
                                 (None, s2) \<Rightarrow> (Fail, s2)
                               | (Some (cpos2, bytes_read2, out2), s2) \<Rightarrow>
                                   (case read_tail s2 cpos2 nbyte bytes_read2 out2 of
                                      (None, s3) \<Rightarrow> (Fail, s3)
                                    | (Some (bytes_read, out), s3) \<Rightarrow>
                                        (Ok (uint bytes_read, out),
                                         set_file s3 fd
                                           ((files s3 ! fd)\<lparr>
                                              current_cluster := cluster_no cpos2,
                                              offset := offset (files s3 ! fd) + bytes_read\<rparr>))))))))"

definition write_impl :: "mfat_ctx \<Rightarrow> nat \<Rightarrow> u8 list \<Rightarrow> u32 \<Rightarrow> int res \<times> mfat_ctx" where
  "write_impl s fd wbuf nbyte =
     (if (oflag (files s ! fd)) AND MFAT_O_WRONLY = 0 then (Fail, s) else (Fail, s))"

text \<open>
  The loop of \<^verbatim>\<open>_mfat_lseek_impl\<close> that skips along the clusters. A zero cluster size
  has trapped before the loop, so the loop is only entered with a positive one.
\<close>

function lseek_skip ::
  "mfat_ctx \<Rightarrow> mfat_partition \<Rightarrow> u32 \<Rightarrow> u32 \<Rightarrow> u32 \<Rightarrow> u32 \<Rightarrow> u32 option \<times> mfat_ctx" where
  "lseek_skip s part target_offset bytes_per_cluster cur_cluster cluster_offset =
     (if bytes_per_cluster \<noteq> 0 \<and> target_offset - cluster_offset \<ge> bytes_per_cluster then
        (if is_eoc cur_cluster then (None, s)
         else
           (case next_cluster s part cur_cluster of
              (None, s1) \<Rightarrow> (None, s1)
            | (Some c, s1) \<Rightarrow>
                lseek_skip s1 part target_offset bytes_per_cluster c
                  (cluster_offset + bytes_per_cluster)))
      else (Some cur_cluster, s))"
  by pat_completeness auto
termination
proof (relation "measure (\<lambda>(s, part, target_offset, bytes_per_cluster, cur_cluster, cluster_offset).
         unat (target_offset - cluster_offset))", goal_cases)
  case 1
  show ?case by simp
next
  case (2 s part target_offset bytes_per_cluster cur_cluster cluster_offset)
  from 2(1) have nz: "0 < unat bytes_per_cluster" by (simp add: unat_gt_0)
  from 2(1) have le: "unat bytes_per_cluster \<le> unat (target_offset - cluster_offset)"
    by (simp only: word_le_nat_alt)
  from 2(1) have "unat (target_offset - cluster_offset - bytes_per_cluster)
      = unat (target_offset - cluster_offset) - unat bytes_per_cluster"
    by (intro unat_sub) simp
  with le nz have
    "unat (target_offset - cluster_offset - bytes_per_cluster) < unat (target_offset - cluster_offset)"
    by simp
  then show ?case by (simp add: diff_diff_eq)
qed

declare lseek_skip.simps [simp del]

text \<open>
  \<^verbatim>\<open>_mfat_lseek_impl\<close> for the open file \<open>fd\<close>. The offset is a signed 64-bit value; a
  sum that does not fit into 64 bits is a signed overflow (a trap), and so is the remainder
  by a zero cluster size.
\<close>

definition lseek_impl :: "mfat_ctx \<Rightarrow> nat \<Rightarrow> 64 word \<Rightarrow> int \<Rightarrow> int res \<times> mfat_ctx" where
  "lseek_impl s fd offs whence =
     (let f = files s ! fd
      in case (if whence = MFAT_SEEK_SET then Some (sint offs)
               else if whence = MFAT_SEEK_END then Some (uint (fsize (info f)) + sint offs)
               else if whence = MFAT_SEEK_CUR then Some (uint (offset f) + sint offs)
               else None) of
           None \<Rightarrow> (Fail, s)
         | Some target_offset_64 \<Rightarrow>
             (if target_offset_64 \<ge> 2 ^ 63 then (Trap, s)
              else if target_offset_64 < 0 then (Fail, s)
              else if target_offset_64 > uint (fsize (info f)) then (Fail, s)
              else
                (let target_offset = (word_of_int target_offset_64 :: u32);
                     part = partitions s ! part_no (info f);
                     bytes_per_cluster = blocks_per_cluster part * 512
                 in if bytes_per_cluster = 0 then (Trap, s)
                    else
                      (let cluster_offset = offset f - (offset f mod bytes_per_cluster);
                           start = (if target_offset < cluster_offset then (first_cluster (info f), 0)
                                    else (current_cluster f, cluster_offset))
                       in case lseek_skip s part target_offset bytes_per_cluster (fst start)
                                 (snd start) of
                            (None, s1) \<Rightarrow> (Fail, s1)
                          | (Some c, s1) \<Rightarrow>
                              (Ok (uint target_offset),
                               set_file s1 fd
                                 ((files s1 ! fd)\<lparr>offset := target_offset,
                                                   current_cluster := c\<rparr>))))))"

section \<open>Public API functions\<close>

definition zero_file :: mfat_file where
  "zero_file =
     \<lparr>is_open = False, oflag = 0, offset = 0, current_cluster = 0,
      info = \<lparr>part_no = 0, fsize = 0, first_cluster = 0, dir_entry_block = 0,
              dir_entry_offset = 0\<rparr>\<rparr>"

definition zero_cached_block :: mfat_cached_block where
  "zero_cached_block = \<lparr>state = MFAT_INVALID, blk_no = 0, buf = replicate 512 0\<rparr>"

text \<open>
  The context of \<^verbatim>\<open>mfat_mount\<close> before it reads the partition tables: all zero, but for
  the callbacks, the active partition \<open>-1\<close> and the priority queues \<open>0, 1, \<dots>\<close>.
\<close>

definition cleared_ctx :: "mfat_read_block_fun \<Rightarrow> mfat_write_block_fun \<Rightarrow> device \<Rightarrow> mfat_ctx" where
  "cleared_ctx rfun wfun cst =
     \<lparr>initialized = False, active_partition = - 1, read_fun = rfun, write_fun = wfun, custom = cst,
      partitions = replicate MFAT_NUM_PARTITIONS zero_partition,
      files = replicate MFAT_NUM_FDS zero_file,
      caches = replicate MFAT_NUM_CACHES
        \<lparr>block = replicate MFAT_NUM_CACHED_BLOCKS zero_cached_block,
         pri = [0..<MFAT_NUM_CACHED_BLOCKS]\<rparr>\<rparr>"

text \<open>
  The loop of \<^verbatim>\<open>mfat_mount\<close> that selects the active partition, over the partitions from
  index \<open>i\<close>: the result is the new \<^verbatim>\<open>s_ctx.active_partition\<close>.
\<close>

fun pick_partition :: "mfat_partition list \<Rightarrow> nat \<Rightarrow> int \<Rightarrow> int \<Rightarrow> int" where
  "pick_partition [] i first_boot_partition active = active"
| "pick_partition (p # ps) i first_boot_partition active =
     (if ptype p \<noteq> MFAT_TYPE_UNKNOWN then
        (if boot p \<and> first_boot_partition < 0 then pick_partition ps (Suc i) (int i) (int i)
         else if active < 0 then pick_partition ps (Suc i) first_boot_partition (int i)
         else pick_partition ps (Suc i) first_boot_partition active)
      else pick_partition ps (Suc i) first_boot_partition active)"

text \<open>\<^verbatim>\<open>mfat_mount\<close>; a callback that is \<^verbatim>\<open>NULL\<close> is \<open>None\<close>.\<close>

definition mfat_mount ::
  "mfat_ctx \<Rightarrow> mfat_read_block_fun option \<Rightarrow> mfat_write_block_fun option \<Rightarrow> device
     \<Rightarrow> int res \<times> mfat_ctx" where
  "mfat_mount s rd wr cst =
     (case (rd, wr) of
        (Some rfun, Some wfun) \<Rightarrow>
          (case decode_partition_tables (cleared_ctx rfun wfun cst) of
             (Trap, s1) \<Rightarrow> (Trap, s1)
           | (Fail, s1) \<Rightarrow> (Fail, s1)
           | (Ok u, s1) \<Rightarrow>
               (let s2 = s1\<lparr>active_partition :=
                      pick_partition (take MFAT_NUM_PARTITIONS (partitions s1)) 0 (- 1)
                        (active_partition s1)\<rparr>
                in if active_partition s2 < 0 then (Fail, s2)
                   else (Ok 0, s2\<lparr>initialized := True\<rparr>)))
      | _ \<Rightarrow> (Fail, s))"

definition mfat_unmount :: "mfat_ctx \<Rightarrow> mfat_ctx" where
  "mfat_unmount s = (sync_impl s)\<lparr>initialized := False\<rparr>"

definition mfat_select_partition :: "mfat_ctx \<Rightarrow> int \<Rightarrow> int res \<times> mfat_ctx" where
  "mfat_select_partition s partition_no =
     (if \<not> initialized s then (Fail, s)
      else if partition_no < 0 \<or> partition_no \<ge> int MFAT_NUM_PARTITIONS then (Fail, s)
      else if ptype (partitions s ! nat partition_no) = MFAT_TYPE_UNKNOWN then (Fail, s)
      else (Ok 0, s\<lparr>active_partition := partition_no\<rparr>))"

definition mfat_sync :: "mfat_ctx \<Rightarrow> mfat_ctx" where
  "mfat_sync s = (if \<not> initialized s then s else sync_impl s)"

definition mfat_fstat :: "mfat_ctx \<Rightarrow> int \<Rightarrow> mfat_stat res \<times> mfat_ctx" where
  "mfat_fstat s fd =
     (if \<not> initialized s then (Fail, s)
      else (case get_file s fd of
              None \<Rightarrow> (Fail, s)
            | Some k \<Rightarrow> fstat_impl s (info (files s ! k))))"

text \<open>
  \<^verbatim>\<open>mfat_stat\<close>: \<open>path\<close> is \<open>None\<close> for a \<^verbatim>\<open>NULL\<close> path, and \<open>stat_given\<close> tells that
  the pointer \<^verbatim>\<open>stat\<close> is not \<^verbatim>\<open>NULL\<close>.
\<close>

definition mfat_stat :: "mfat_ctx \<Rightarrow> u8 list option \<Rightarrow> bool \<Rightarrow> mfat_stat res \<times> mfat_ctx" where
  "mfat_stat s path stat_given =
     (if \<not> initialized s \<or> active_partition s < 0 then (Fail, s)
      else (case path of
              None \<Rightarrow> (Fail, s)
            | Some p \<Rightarrow> (if \<not> stat_given then (Fail, s) else stat_impl s p)))"

definition mfat_open :: "mfat_ctx \<Rightarrow> u8 list option \<Rightarrow> int \<Rightarrow> int res \<times> mfat_ctx" where
  "mfat_open s path oflg =
     (if \<not> initialized s \<or> active_partition s < 0 then (Fail, s)
      else (case path of
              None \<Rightarrow> (Fail, s)
            | Some p \<Rightarrow> (if oflg AND MFAT_O_RDWR = 0 then (Fail, s) else open_impl s p oflg)))"

definition mfat_close :: "mfat_ctx \<Rightarrow> int \<Rightarrow> int res \<times> mfat_ctx" where
  "mfat_close s fd =
     (if \<not> initialized s then (Fail, s)
      else (case get_file s fd of
              None \<Rightarrow> (Fail, s)
            | Some k \<Rightarrow> close_impl s k))"

definition mfat_read :: "mfat_ctx \<Rightarrow> int \<Rightarrow> u32 \<Rightarrow> (int \<times> u8 list) res \<times> mfat_ctx" where
  "mfat_read s fd nbyte =
     (if \<not> initialized s then (Fail, s)
      else (case get_file s fd of
              None \<Rightarrow> (Fail, s)
            | Some k \<Rightarrow> read_impl s k nbyte))"

definition mfat_write :: "mfat_ctx \<Rightarrow> int \<Rightarrow> u8 list \<Rightarrow> u32 \<Rightarrow> int res \<times> mfat_ctx" where
  "mfat_write s fd wbuf nbyte =
     (if \<not> initialized s then (Fail, s)
      else (case get_file s fd of
              None \<Rightarrow> (Fail, s)
            | Some k \<Rightarrow> write_impl s k wbuf nbyte))"

definition mfat_lseek :: "mfat_ctx \<Rightarrow> int \<Rightarrow> 64 word \<Rightarrow> int \<Rightarrow> int res \<times> mfat_ctx" where
  "mfat_lseek s fd offs whence =
     (if \<not> initialized s then (Fail, s)
      else (case get_file s fd of
              None \<Rightarrow> (Fail, s)
            | Some k \<Rightarrow> lseek_impl s k offs whence))"

section \<open>Invariants of the specification\<close>

text \<open>
  The cache invariant of one cache: the priority queue is a permutation of the slot
  indices, and no two slots that are not invalid hold the same block number.
\<close>

definition cache_inv :: "mfat_cache \<Rightarrow> bool" where
  "cache_inv c \<longleftrightarrow>
     block c \<noteq> [] \<and> distinct (pri c) \<and> set (pri c) = {0..<length (block c)} \<and>
     (\<forall>i<length (block c). \<forall>j<length (block c).
        i \<noteq> j \<and> state (block c ! i) \<noteq> MFAT_INVALID \<and> state (block c ! j) \<noteq> MFAT_INVALID
          \<longrightarrow> blk_no (block c ! i) \<noteq> blk_no (block c ! j))"

definition ctx_cache_inv :: "mfat_ctx \<Rightarrow> bool" where
  "ctx_cache_inv s \<longleftrightarrow>
     length (caches s) = MFAT_NUM_CACHES \<and> (\<forall>t<MFAT_NUM_CACHES. cache_inv (caches s ! t))"

text \<open>
  The cached blocks of a context, and three more properties of them: no cached block is
  dirty (nothing of the library marks a block dirty), every cached block that is not
  invalid holds what the read callback returns for its block number, and every buffer has
  512 bytes.
\<close>

definition slots :: "mfat_ctx \<Rightarrow> mfat_cached_block set" where
  "slots s = (\<Union>c\<in>set (caches s). set (block c))"

definition no_dirty :: "mfat_ctx \<Rightarrow> bool" where
  "no_dirty s \<longleftrightarrow> (\<forall>cb\<in>slots s. state cb \<noteq> MFAT_DIRTY)"

definition coherent :: "mfat_ctx \<Rightarrow> bool" where
  "coherent s \<longleftrightarrow>
     (\<forall>cb\<in>slots s. state cb \<noteq> MFAT_INVALID \<longrightarrow> dev_read s (blk_no cb) = Some (buf cb))"

definition bufs512 :: "mfat_ctx \<Rightarrow> bool" where
  "bufs512 s \<longleftrightarrow> (\<forall>cb\<in>slots s. length (buf cb) = 512)"

definition cache_ok :: "mfat_ctx \<Rightarrow> bool" where
  "cache_ok s \<longleftrightarrow> ctx_cache_inv s \<and> no_dirty s \<and> coherent s \<and> bufs512 s"

text \<open>
  What every operation keeps of the caches and of the medium: the callbacks, the cache
  invariant, and with clean coherent caches also the medium itself.
\<close>

definition cache_pres :: "mfat_ctx \<Rightarrow> mfat_ctx \<Rightarrow> bool" where
  "cache_pres s s' \<longleftrightarrow>
     read_fun s' = read_fun s \<and> write_fun s' = write_fun s \<and>
     (ctx_cache_inv s \<longrightarrow> ctx_cache_inv s') \<and>
     (cache_ok s \<longrightarrow> cache_ok s' \<and> custom s' = custom s)"

text \<open>An operation that changes nothing but the caches and the medium.\<close>

definition cache_step :: "mfat_ctx \<Rightarrow> mfat_ctx \<Rightarrow> bool" where
  "cache_step s s' \<longleftrightarrow>
     files s' = files s \<and> partitions s' = partitions s \<and> initialized s' = initialized s \<and>
     active_partition s' = active_partition s \<and> cache_pres s s'"

text \<open>The characters that \<open>canonicalize_char\<close> leaves as they are.\<close>

definition valid_char :: "u8 \<Rightarrow> bool" where
  "valid_char c \<longleftrightarrow>
     (c \<ge> 0x41 \<and> c \<le> 0x5a) \<or> (c \<ge> 0x30 \<and> c \<le> 0x39) \<or> c = 0x24 \<or> c = 0x25 \<or> c = 0x2d
       \<or> c = 0x5f \<or> c = 0x40 \<or> c = 0x7e \<or> c = 0x60 \<or> c = 0x21 \<or> c = 0x28 \<or> c = 0x29
       \<or> c = 0x7b \<or> c = 0x7d \<or> c = 0x5e \<or> c = 0x23 \<or> c = 0x26"


definition geom_ok :: "mfat_partition \<Rightarrow> bool" where
  "geom_ok p \<longleftrightarrow> 0 < unat (blocks_per_cluster p) \<and> unat (blocks_per_cluster p) < 256"

text \<open>What the decoding of the partition tables keeps of the context.\<close>

definition decode_step :: "mfat_ctx \<Rightarrow> mfat_ctx \<Rightarrow> bool" where
  "decode_step s s' \<longleftrightarrow>
     cache_pres s s' \<and> files s' = files s \<and> initialized s' = initialized s \<and>
     active_partition s' = active_partition s \<and> length (partitions s') = length (partitions s)"

text \<open>The index of the first item of a list with a property.\<close>

fun first_index :: "('a \<Rightarrow> bool) \<Rightarrow> 'a list \<Rightarrow> nat option" where
  "first_index P [] = None"
| "first_index P (x # xs) = (if P x then Some 0 else map_option Suc (first_index P xs))"

text \<open>
  A partition whose BPB has been decoded: its type is decided, and a partition of a known
  type has a cluster size that is not zero.
\<close>

definition part_decoded :: "mfat_partition \<Rightarrow> bool" where
  "part_decoded p \<longleftrightarrow>
     ptype p \<noteq> MFAT_TYPE_FAT_UNDECIDED \<and> (ptype p \<noteq> MFAT_TYPE_UNKNOWN \<longrightarrow> geom_ok p)"

section \<open>A small FAT16 volume\<close>

text \<open>
  A storage medium without a partition table that holds one FAT16 volume: the BPB in block
  0, one FAT of 20 blocks from block 1, a root directory of one block in block 21 and the
  data clusters (of one block each) from block 22. The root directory holds
  \<^verbatim>\<open>HELLO.TXT\<close> (700 bytes, clusters 2 and 3), \<^verbatim>\<open>BIG.BIN\<close> (a size of 1024 bytes, but
  the single cluster 4), a long-name entry whose first 11 bytes read \<^verbatim>\<open>ABBBBBBBBBB\<close>
  and a deleted entry (first byte 0xE5); the fifth entry is the end of the directory.
\<close>

fun put_bytes :: "u8 list \<Rightarrow> nat \<Rightarrow> u8 list \<Rightarrow> u8 list" where
  "put_bytes b i [] = b"
| "put_bytes b i (x # xs) = put_bytes (b[i := x]) (Suc i) xs"

definition bytes_of :: "string \<Rightarrow> u8 list" where
  "bytes_of str = map of_char str"

definition ex_bpb :: "u8 list" where
  "ex_bpb =
     (replicate 512 0)[0 := 0xeb, 2 := 0x90, 11 := 0x00, 12 := 0x02, 13 := 1, 14 := 1, 16 := 1,
       17 := 16, 19 := 0x88, 20 := 0x13, 22 := 20, 510 := 0x55, 511 := 0xaa]"

definition ex_fat :: "u8 list" where
  "ex_fat =
     (replicate 512 0)[0 := 0xf8, 1 := 0xff, 2 := 0xff, 3 := 0xff, 4 := 3, 6 := 0xff, 7 := 0xff,
       8 := 0xff, 9 := 0xff]"

definition ex_root :: "u8 list" where
  "ex_root =
     (put_bytes (put_bytes (put_bytes (replicate 512 0)
        0 (bytes_of ''HELLO   TXT'' @ [0x20]))
        32 (bytes_of ''BIG     BIN'' @ [0x20]))
        64 (bytes_of ''ABBBBBBBBBB'' @ [0x0f]))
       [26 := 2, 28 := 0xbc, 29 := 0x02, 58 := 4, 61 := 0x04,
        96 := 0xe5, 97 := 0x4c, 98 := 0x44, 107 := 0x20]"

definition ex_data :: "u8 \<Rightarrow> u8 list" where
  "ex_data x = replicate 512 x"

definition ex_medium :: device where
  "ex_medium b =
     (if b = 0 then ex_bpb else if b = 1 then ex_fat else if b = 21 then ex_root
      else if b = 22 then ex_data 0x61 else if b = 23 then ex_data 0x62
      else if b = 24 then ex_data 0x63 else replicate 512 0)"

definition ex_read :: mfat_read_block_fun where
  "ex_read m b = Some (m b)"

definition ex_write :: mfat_write_block_fun where
  "ex_write m b d = Some (m(b := d))"

text \<open>The context after the volume has been mounted.\<close>

definition ex_mounted :: mfat_ctx where
  "ex_mounted = snd (mfat_mount (cleared_ctx ex_read ex_write ex_medium) (Some ex_read) (Some ex_write) ex_medium)"

text \<open>The context that the mount leaves, written out, with empty caches.\<close>

definition ex_part :: mfat_partition where
  "ex_part =
     \<lparr>ptype = MFAT_TYPE_FAT16, first_block = 0, num_blocks = 5000, blocks_per_cluster = 1,
      num_clusters = 4979, blocks_per_fat = 20, num_fats = 1, num_reserved_blocks = 1,
      root_dir_block = 21, blocks_in_root_dir = 1, root_dir_cluster = 0, first_data_block = 22,
      boot = False\<rparr>"

definition ex_ctx :: mfat_ctx where
  "ex_ctx =
     (cleared_ctx ex_read ex_write ex_medium)\<lparr>
        initialized := True, active_partition := 0,
        partitions := [ex_part, zero_partition, zero_partition, zero_partition]\<rparr>"



text \<open>
  A second medium without a partition table that holds one FAT32 volume of 70000 blocks:
  the BPB in block 0, 32 reserved blocks, one FAT of 600 blocks from block 32, clusters of
  one block. The first block of the FAT holds the entries of the clusters 2 to 5, which
  are 3 under four high bits that are set, an end-of-chain mark, the bad-cluster mark
  under four high bits that are set, and zero under such bits; the second block of the
  FAT holds at offset 8 the entry of cluster 130, which is 131.
\<close>

definition ex_bpb32 :: "u8 list" where
  "ex_bpb32 =
     (replicate 512 0)[0 := 0xeb, 2 := 0x90, 11 := 0x00, 12 := 0x02, 13 := 1, 14 := 32, 16 := 1,
       32 := 0x70, 33 := 0x11, 34 := 0x01, 36 := 0x58, 37 := 0x02, 44 := 2,
       510 := 0x55, 511 := 0xaa]"

definition ex_fat32 :: "u8 list" where
  "ex_fat32 =
     (replicate 512 0)[8 := 0x03, 11 := 0xf0, 12 := 0xff, 13 := 0xff, 14 := 0xff, 15 := 0x0f,
       16 := 0xf7, 17 := 0xff, 18 := 0xff, 19 := 0xff, 23 := 0xf0]"

definition ex_fat32b :: "u8 list" where
  "ex_fat32b = (replicate 512 0)[8 := 0x83]"

definition ex_medium32 :: device where
  "ex_medium32 b =
     (if b = 0 then ex_bpb32 else if b = 32 then ex_fat32 else if b = 33 then ex_fat32b
      else replicate 512 0)"

text \<open>
  A read callback that cannot read block 1, which holds the FAT of the FAT16 example
  volume, and the context after that volume has been mounted with it.
\<close>

definition ex_read_bad :: mfat_read_block_fun where
  "ex_read_bad m b = (if b = 1 then None else Some (m b))"

definition ex_mounted_bad :: mfat_ctx where
  "ex_mounted_bad =
     snd (mfat_mount (cleared_ctx ex_read_bad ex_write ex_medium) (Some ex_read_bad)
            (Some ex_write) ex_medium)"

text \<open>The context after the FAT32 example volume has been mounted.\<close>

definition ex_mounted32 :: mfat_ctx where
  "ex_mounted32 =
     snd (mfat_mount (cleared_ctx ex_read ex_write ex_medium32) (Some ex_read) (Some ex_write)
            ex_medium32)"

text \<open>
  The example volume after the mount, after \<^verbatim>\<open>HELLO.TXT\<close> has been opened for reading,
  after 600 bytes have been read from it, and after a seek back to the offset 100; and
  the mounted volume after \<^verbatim>\<open>BIG.BIN\<close> has been opened for reading.
\<close>

definition ex_hello_open :: mfat_ctx where
  "ex_hello_open = snd (mfat_open ex_mounted (Some (bytes_of ''HELLO.TXT'')) MFAT_O_RDONLY)"

definition ex_hello_read :: mfat_ctx where
  "ex_hello_read = snd (mfat_read ex_hello_open 0 600)"

definition ex_hello_seek :: mfat_ctx where
  "ex_hello_seek = snd (mfat_lseek ex_hello_read 0 100 MFAT_SEEK_SET)"

definition ex_big_open :: mfat_ctx where
  "ex_big_open = snd (mfat_open ex_mounted (Some (bytes_of ''BIG.BIN'')) MFAT_O_RDONLY)"


section \<open>The cluster chain of a file on the medium\<close>

text \<open>
  The FAT chain as the medium holds it, for a function \<open>rd\<close> that gives the blocks of the
  medium: the entry of a cluster, decoded and checked as \<^verbatim>\<open>_mfat_next_cluster\<close> does it,
  and the cluster that is reached from a cluster by following the chain \<open>n\<close> times.
\<close>

definition fat_next :: "(u32 \<Rightarrow> u8 list option) \<Rightarrow> mfat_partition \<Rightarrow> u32 \<Rightarrow> u32 option" where
  "fat_next rd part c =
     (case rd (fat_block part c) of
        None \<Rightarrow> None
      | Some d \<Rightarrow>
          (let n = fat_entry part d (fat_block_offset part c)
           in if n = 0 \<or> n = 0x0ffffff7 then None else Some n))"

fun chain_walk :: "(u32 \<Rightarrow> u8 list option) \<Rightarrow> mfat_partition \<Rightarrow> u32 \<Rightarrow> nat \<Rightarrow> u32 option" where
  "chain_walk rd part c 0 = Some c"
| "chain_walk rd part c (Suc n) =
     (case chain_walk rd part c n of None \<Rightarrow> None | Some d \<Rightarrow> fat_next rd part d)"

text \<open>The number of bytes of a cluster.\<close>

definition cluster_bytes :: "mfat_partition \<Rightarrow> nat" where
  "cluster_bytes part = unat (blocks_per_cluster part) * 512"

text \<open>
  A cluster position that stands \<open>k\<close> blocks after the first block of the cluster \<open>c0\<close>,
  along the chain.
\<close>

definition cursor_at ::
  "(u32 \<Rightarrow> u8 list option) \<Rightarrow> mfat_partition \<Rightarrow> u32 \<Rightarrow> mfat_cluster_pos \<Rightarrow> nat \<Rightarrow> bool" where
  "cursor_at rd part c0 cpos k \<longleftrightarrow>
     chain_walk rd part c0 (k div unat (blocks_per_cluster part)) = Some (cluster_no cpos) \<and>
     unat (block_in_cluster cpos) = k mod unat (blocks_per_cluster part)"


text \<open>
  The invariant of an open file descriptor: it belongs to a partition with a cluster size,
  its offset is within the file, and its current cluster is the one that is reached from
  the first cluster of the file by following the chain once for every whole cluster before
  the offset.
\<close>

definition file_ok :: "mfat_ctx \<Rightarrow> mfat_file \<Rightarrow> bool" where
  "file_ok s f \<longleftrightarrow>
     part_no (info f) < MFAT_NUM_PARTITIONS \<and>
     geom_ok (partitions s ! part_no (info f)) \<and>
     offset f \<le> fsize (info f) \<and>
     chain_walk (dev_read s) (partitions s ! part_no (info f)) (first_cluster (info f))
       (unat (offset f) div cluster_bytes (partitions s ! part_no (info f)))
       = Some (current_cluster f)"

text \<open>
  The invariant of the context: clean and coherent caches, tables of the configured
  sizes, on a mounted context an active partition of a known type among decoded
  partitions, and the invariant of every open file descriptor.
\<close>

definition mfat_inv :: "mfat_ctx \<Rightarrow> bool" where
  "mfat_inv s \<longleftrightarrow>
     cache_ok s \<and> length (partitions s) = MFAT_NUM_PARTITIONS \<and>
     length (files s) = MFAT_NUM_FDS \<and>
     (initialized s \<longrightarrow>
        0 \<le> active_partition s \<and> active_partition s < int MFAT_NUM_PARTITIONS \<and>
        ptype (partitions s ! nat (active_partition s)) \<noteq> MFAT_TYPE_UNKNOWN \<and>
        (\<forall>p\<in>set (partitions s). part_decoded p)) \<and>
     (\<forall>f\<in>set (files s). is_open f \<longrightarrow> file_ok s f)"

text \<open>
  The contexts that the library can reach: what a mount with both callbacks leaves, and
  what a public function leaves when it is called on such a context. A call that traps
  (undefined behaviour of the C program) leaves nothing to reason about.
\<close>

inductive reachable :: "mfat_ctx \<Rightarrow> bool" where
  r_mount: "mfat_mount s0 (Some rfun) (Some wfun) cst = (r, s) \<Longrightarrow> r \<noteq> Trap \<Longrightarrow> reachable s"
| r_unmount: "reachable s \<Longrightarrow> reachable (mfat_unmount s)"
| r_select_partition: "reachable s \<Longrightarrow> mfat_select_partition s p = (r, s') \<Longrightarrow> reachable s'"
| r_sync: "reachable s \<Longrightarrow> reachable (mfat_sync s)"
| r_fstat: "reachable s \<Longrightarrow> mfat_fstat s fd = (rs, s') \<Longrightarrow> rs \<noteq> Trap \<Longrightarrow> reachable s'"
| r_stat: "reachable s \<Longrightarrow> mfat_stat s path stat_given = (rs, s') \<Longrightarrow> rs \<noteq> Trap
           \<Longrightarrow> reachable s'"
| r_open: "reachable s \<Longrightarrow> mfat_open s path oflg = (r, s') \<Longrightarrow> r \<noteq> Trap \<Longrightarrow> reachable s'"
| r_close: "reachable s \<Longrightarrow> mfat_close s fd = (r, s') \<Longrightarrow> reachable s'"
| r_read: "reachable s \<Longrightarrow> mfat_read s fd nbyte = (rr, s') \<Longrightarrow> rr \<noteq> Trap \<Longrightarrow> reachable s'"
| r_write: "reachable s \<Longrightarrow> mfat_write s fd wbuf nbyte = (r, s') \<Longrightarrow> reachable s'"
| r_lseek: "reachable s \<Longrightarrow> mfat_lseek s fd offs whence = (r, s') \<Longrightarrow> r \<noteq> Trap
            \<Longrightarrow> reachable s'"

section \<open>The block cache\<close>

lemma nth_upd_if: "xs[i := x] ! j = (if i = j \<and> i < length xs then x else xs ! j)"
  by (cases "i < length xs") (auto simp: nth_list_update list_update_beyond)

lemma set_cache_simps [simp]:
  "caches (set_cache s t c) = (caches s)[t := c]"
  "files (set_cache s t c) = files s"
  "partitions (set_cache s t c) = partitions s"
  "custom (set_cache s t c) = custom s"
  "read_fun (set_cache s t c) = read_fun s"
  "write_fun (set_cache s t c) = write_fun s"
  "initialized (set_cache s t c) = initialized s"
  "active_partition (set_cache s t c) = active_partition s"
  by (simp_all add: set_cache_def)

lemma set_block_simps [simp]:
  "files (set_block s t i cb) = files s"
  "partitions (set_block s t i cb) = partitions s"
  "custom (set_block s t i cb) = custom s"
  "read_fun (set_block s t i cb) = read_fun s"
  "write_fun (set_block s t i cb) = write_fun s"
  "initialized (set_block s t i cb) = initialized s"
  "active_partition (set_block s t i cb) = active_partition s"
  by (simp_all add: set_block_def)

lemma caches_set_block:
  "caches (set_block s t i cb) =
     (caches s)[t := (caches s ! t)\<lparr>block := (block (caches s ! t))[i := cb]\<rparr>]"
  by (simp add: set_block_def)

lemma dev_write_frame:
  "dev_write s b d = Some s' \<Longrightarrow>
     caches s' = caches s \<and> files s' = files s \<and> partitions s' = partitions s \<and>
     read_fun s' = read_fun s \<and> write_fun s' = write_fun s \<and>
     initialized s' = initialized s \<and> active_partition s' = active_partition s"
  by (auto simp: dev_write_def)

lemma pri_shift_split:
  "item_id \<notin> set xs \<Longrightarrow> pri_shift item_id prev_id (xs @ item_id # ys) = prev_id # xs @ ys"
  by (induction xs arbitrary: prev_id) auto

lemma pri_shift_perm:
  assumes "item_id \<in> set p"
  shows "set (pri_shift item_id item_id p) = set p"
    and "distinct p \<Longrightarrow> distinct (pri_shift item_id item_id p)"
    and "length (pri_shift item_id item_id p) = length p"
proof -
  obtain xs ys where p: "p = xs @ item_id # ys" and nin: "item_id \<notin> set xs"
    using assms by (meson split_list_first)
  show "set (pri_shift item_id item_id p) = set p"
    using nin by (auto simp: p pri_shift_split)
  show "distinct p \<Longrightarrow> distinct (pri_shift item_id item_id p)"
    using nin by (auto simp: p pri_shift_split)
  show "length (pri_shift item_id item_id p) = length p"
    using nin by (simp add: p pri_shift_split)
qed

lemma find_hit_Some:
  "find_hit cbs b i = Some k \<Longrightarrow>
     i \<le> k \<and> k < i + length cbs \<and> state (cbs ! (k - i)) \<noteq> MFAT_INVALID \<and> blk_no (cbs ! (k - i)) = b"
proof (induction cbs arbitrary: i)
  case Nil
  then show ?case by simp
next
  case (Cons cb cbs)
  show ?case
  proof (cases "state cb \<noteq> MFAT_INVALID \<and> blk_no cb = b")
    case True
    with Cons.prems show ?thesis by auto
  next
    case False
    with Cons.prems have "find_hit cbs b (Suc i) = Some k" by auto
    from Cons.IH [OF this] show ?thesis by (auto simp: Suc_diff_le)
  qed
qed

lemma find_hit_None:
  "find_hit cbs b i = None \<Longrightarrow> j < length cbs \<Longrightarrow>
     state (cbs ! j) = MFAT_INVALID \<or> blk_no (cbs ! j) \<noteq> b"
proof (induction cbs arbitrary: i j)
  case Nil
  then show ?case by simp
next
  case (Cons cb cbs)
  then show ?case by (cases j) (auto split: if_splits)
qed

lemma cache_inv_length_pri: "cache_inv c \<Longrightarrow> length (pri c) = length (block c)"
  by (metis cache_inv_def card_atLeastLessThan diff_zero distinct_card)

lemma cache_inv_pri_update:
  "cache_inv c \<Longrightarrow> item_id < length (block c) \<Longrightarrow>
     cache_inv (c\<lparr>pri := pri_shift item_id item_id (pri c)\<rparr>)"
  by (simp add: cache_inv_def pri_shift_perm)

lemma cache_inv_invalidate:
  "cache_inv c \<Longrightarrow>
     cache_inv (c\<lparr>block := (block c)[i := cb\<lparr>blk_no := b, state := MFAT_INVALID\<rparr>]\<rparr>)"
  by (auto simp: cache_inv_def nth_upd_if)

lemma cache_inv_last_pri:
  "cache_inv c \<Longrightarrow> pri c ! (length (block c) - 1) < length (block c)"
proof -
  assume c: "cache_inv c"
  then have len: "length (pri c) = length (block c)" by (rule cache_inv_length_pri)
  from c have "block c \<noteq> []" by (simp add: cache_inv_def)
  with len have "pri c ! (length (block c) - 1) \<in> set (pri c)" by simp
  with c show ?thesis by (simp add: cache_inv_def)
qed

lemma ctx_cache_inv_set_cache:
  "ctx_cache_inv s \<Longrightarrow> cache_inv c \<Longrightarrow> ctx_cache_inv (set_cache s t c)"
  by (auto simp: ctx_cache_inv_def nth_upd_if)

lemma select_item_lt: "cache_inv c \<Longrightarrow> select_item c b < length (block c)"
  using cache_inv_last_pri [of c]
  by (auto simp: select_item_def split: option.splits dest: find_hit_Some)

lemma select_item_hit:
  "find_hit (block c) b 0 = Some i \<Longrightarrow>
     state (block c ! select_item c b) \<noteq> MFAT_INVALID \<and> blk_no (block c ! select_item c b) = b"
  by (auto simp: select_item_def dest: find_hit_Some)

lemma select_item_miss:
  "find_hit (block c) b 0 = None \<Longrightarrow> j < length (block c) \<Longrightarrow>
     state (block c ! j) = MFAT_INVALID \<or> blk_no (block c ! j) \<noteq> b"
  by (rule find_hit_None)

lemma get_cached_block_inv:
  assumes inv: "ctx_cache_inv s" and t: "t < MFAT_NUM_CACHES"
    and g: "get_cached_block s b t = (r, s')"
  shows "ctx_cache_inv s'"
proof -
  define c where "c = caches s ! t"
  define item_id where "item_id = select_item c b"
  define s1 where "s1 = set_cache s t (c\<lparr>pri := pri_shift item_id item_id (pri c)\<rparr>)"
  have cinv: "cache_inv c" using inv t by (simp add: ctx_cache_inv_def c_def)
  have lt: "item_id < length (block c)" using cinv by (simp add: item_id_def select_item_lt)
  have s1: "ctx_cache_inv s1"
    unfolding s1_def using inv cinv lt by (intro ctx_cache_inv_set_cache cache_inv_pri_update)
  have c1inv: "cache_inv (caches s1 ! t)" using s1 t by (simp add: ctx_cache_inv_def)
  have reassign: "ctx_cache_inv (set_block s2 t item_id (cb\<lparr>blk_no := b, state := MFAT_INVALID\<rparr>))"
    if "caches s2 = caches s1" for s2 cb
    using s1 c1inv that unfolding set_block_def
    by (intro ctx_cache_inv_set_cache cache_inv_invalidate) (simp_all add: ctx_cache_inv_def)
  show ?thesis
    using g s1 reassign dev_write_frame
    unfolding get_cached_block_def Let_def c_def [symmetric]
      item_id_def [symmetric] s1_def [symmetric]
    by (auto split: if_splits option.splits)
qed

text \<open>The slot that \<open>get_cached_block\<close> returns holds the requested block number.\<close>

lemma get_cached_block_slot:
  assumes inv: "ctx_cache_inv s" and t: "t < MFAT_NUM_CACHES"
    and g: "get_cached_block s b t = (Some i, s')"
  shows "i < length (block (caches s' ! t)) \<and> blk_no (get_block s' t i) = b"
proof -
  define c where "c = caches s ! t"
  define item_id where "item_id = select_item c b"
  define s1 where "s1 = set_cache s t (c\<lparr>pri := pri_shift item_id item_id (pri c)\<rparr>)"
  have cinv: "cache_inv c" using inv t by (simp add: ctx_cache_inv_def c_def)
  have lt: "item_id < length (block c)" using cinv by (simp add: item_id_def select_item_lt)
  have tl: "t < length (caches s)" using inv t by (simp add: ctx_cache_inv_def)
  have b1: "block (caches s1 ! t) = block c" using tl by (simp add: s1_def)
  have reassign:
    "item_id < length (block (caches (set_block s2 t item_id cb') ! t)) \<and>
     get_block (set_block s2 t item_id cb') t item_id = cb'"
    if "caches s2 = caches s1" for s2 cb'
    using that tl lt b1 by (simp add: caches_set_block get_block_def s1_def)
  show ?thesis
    using g lt b1 reassign dev_write_frame
    unfolding get_cached_block_def Let_def c_def [symmetric]
      item_id_def [symmetric] s1_def [symmetric]
    by (auto split: if_splits option.splits)
qed

lemma cache_pres_refl [simp]: "cache_pres s s"
  by (simp add: cache_pres_def)

lemma cache_pres_trans: "cache_pres s s1 \<Longrightarrow> cache_pres s1 s2 \<Longrightarrow> cache_pres s s2"
  by (auto simp: cache_pres_def)

lemma cache_step_refl [simp]: "cache_step s s"
  by (simp add: cache_step_def)

lemma cache_step_trans: "cache_step s s1 \<Longrightarrow> cache_step s1 s2 \<Longrightarrow> cache_step s s2"
  by (auto simp: cache_step_def intro: cache_pres_trans)

lemma cache_step_pres: "cache_step s s' \<Longrightarrow> cache_pres s s'"
  by (simp add: cache_step_def)

lemma slots_pri_update:
  "t < length (caches s) \<Longrightarrow> slots (set_cache s t ((caches s ! t)\<lparr>pri := p\<rparr>)) = slots s"
proof -
  assume t: "t < length (caches s)"
  have "map block ((caches s)[t := (caches s ! t)\<lparr>pri := p\<rparr>]) = map block (caches s)"
    using t by (simp add: map_update list_update_same_conv)
  then have "set (map block ((caches s)[t := (caches s ! t)\<lparr>pri := p\<rparr>])) = set (map block (caches s))"
    by simp
  then show ?thesis
    unfolding slots_def set_cache_simps by (metis (no_types) UN_simps(10) image_set)
qed

lemma slots_set_block: "slots (set_block s t i cb) \<subseteq> insert cb (slots s)"
proof
  fix x
  assume "x \<in> slots (set_block s t i cb)"
  then obtain c where c: "c \<in> set (caches (set_block s t i cb))" and x: "x \<in> set (block c)"
    by (auto simp: slots_def)
  from c have "c \<in> set (caches s) \<or> c = (caches s ! t)\<lparr>block := (block (caches s ! t))[i := cb]\<rparr> \<and> t < length (caches s)"
    by (auto simp: caches_set_block in_set_conv_nth nth_upd_if split: if_splits)
  then show "x \<in> insert cb (slots s)"
  proof
    assume "c \<in> set (caches s)"
    with x show ?thesis by (auto simp: slots_def)
  next
    assume h: "c = (caches s ! t)\<lparr>block := (block (caches s ! t))[i := cb]\<rparr> \<and> t < length (caches s)"
    with x have "x \<in> set ((block (caches s ! t))[i := cb])" by simp
    then have "x = cb \<or> x \<in> set (block (caches s ! t))"
      using set_update_subset_insert by fastforce
    with h show ?thesis by (auto simp: slots_def)
  qed
qed

lemma dev_read_cong:
  "read_fun s' = read_fun s \<Longrightarrow> custom s' = custom s \<Longrightarrow> dev_read s' = dev_read s"
  by (auto simp: dev_read_def)

lemma get_cached_block_frame:
  assumes g: "get_cached_block s b t = (r, s')"
  shows "files s' = files s \<and> partitions s' = partitions s \<and> initialized s' = initialized s \<and>
         active_partition s' = active_partition s \<and> read_fun s' = read_fun s \<and>
         write_fun s' = write_fun s"
  using g dev_write_frame
  unfolding get_cached_block_def Let_def
  by (fastforce split: if_splits option.splits)

text \<open>With no dirty block in the caches nothing is written, and the lookup cannot fail.\<close>

lemma get_cached_block_clean:
  assumes inv: "ctx_cache_inv s" and t: "t < MFAT_NUM_CACHES" and nd: "no_dirty s"
    and g: "get_cached_block s b t = (r, s')"
  shows "\<exists>i cb. r = Some i \<and> custom s' = custom s \<and> cb \<in> slots s \<and>
           slots s' \<subseteq> insert (cb\<lparr>blk_no := b, state := MFAT_INVALID\<rparr>) (slots s)"
proof -
  define c where "c = caches s ! t"
  define item_id where "item_id = select_item c b"
  define s1 where "s1 = set_cache s t (c\<lparr>pri := pri_shift item_id item_id (pri c)\<rparr>)"
  have cinv: "cache_inv c" using inv t by (simp add: ctx_cache_inv_def c_def)
  have lt: "item_id < length (block c)" using cinv by (simp add: item_id_def select_item_lt)
  have tl: "t < length (caches s)" using inv t by (simp add: ctx_cache_inv_def)
  have b1: "get_block s1 t item_id = block c ! item_id"
    using tl by (simp add: s1_def get_block_def)
  have sl1: "slots s1 = slots s"
    unfolding s1_def c_def using tl by (rule slots_pri_update)
  have mem: "block c ! item_id \<in> slots s"
    using lt tl unfolding slots_def c_def by (auto intro!: bexI [of _ "caches s ! t"])
  with nd have clean: "state (block c ! item_id) \<noteq> MFAT_DIRTY" by (simp add: no_dirty_def)
  have cust: "custom s1 = custom s" by (simp add: s1_def)
  have sub: "slots (set_block s1 t item_id cb') \<subseteq> insert cb' (slots s)" for cb'
    using slots_set_block [of s1 t item_id cb'] sl1 by simp
  show ?thesis
  proof (cases "blk_no (block c ! item_id) \<noteq> b")
    case True
    with g clean b1 have
      "r = Some item_id \<and>
       s' = set_block s1 t item_id ((block c ! item_id)\<lparr>blk_no := b, state := MFAT_INVALID\<rparr>)"
      unfolding get_cached_block_def Let_def c_def [symmetric]
        item_id_def [symmetric] s1_def [symmetric]
      by auto
    with mem cust sub show ?thesis by (intro exI [of _ item_id] exI [of _ "block c ! item_id"]) simp
  next
    case False
    with g b1 have "r = Some item_id \<and> s' = s1"
      unfolding get_cached_block_def Let_def c_def [symmetric]
        item_id_def [symmetric] s1_def [symmetric]
      by auto
    with mem cust sl1 show ?thesis
      by (intro exI [of _ item_id] exI [of _ "block c ! item_id"]) auto
  qed
qed

lemma get_cached_block_ok:
  assumes ok: "cache_ok s" and t: "t < MFAT_NUM_CACHES"
    and g: "get_cached_block s b t = (r, s')"
  shows "cache_ok s' \<and> custom s' = custom s \<and> r \<noteq> None"
proof -
  from ok have inv: "ctx_cache_inv s" and nd: "no_dirty s" and co: "coherent s"
    and b5: "bufs512 s" by (simp_all add: cache_ok_def)
  from get_cached_block_clean [OF inv t nd g] obtain i cb where
    r: "r = Some i" and cust: "custom s' = custom s" and cb: "cb \<in> slots s"
    and sub: "slots s' \<subseteq> insert (cb\<lparr>blk_no := b, state := MFAT_INVALID\<rparr>) (slots s)"
    by blast
  from get_cached_block_frame [OF g] have rf: "read_fun s' = read_fun s" by simp
  have dr: "dev_read s' = dev_read s" using rf cust by (rule dev_read_cong)
  have "no_dirty s'" using nd sub unfolding no_dirty_def by fastforce
  moreover have "coherent s'" using co sub unfolding coherent_def dr by fastforce
  moreover have "bufs512 s'" using b5 sub cb unfolding bufs512_def by fastforce
  moreover have "ctx_cache_inv s'" using inv t g by (rule get_cached_block_inv)
  ultimately show ?thesis using cust r by (simp add: cache_ok_def)
qed

lemma get_cached_block_step:
  assumes t: "t < MFAT_NUM_CACHES" and g: "get_cached_block s b t = (r, s')"
  shows "cache_step s s'"
  using get_cached_block_frame [OF g] get_cached_block_inv [OF _ t g]
    get_cached_block_ok [OF _ t g]
  by (auto simp: cache_step_def cache_pres_def)

section \<open>Reading a block through the cache\<close>

lemma get_block_set_block:
  "t < length (caches s) \<Longrightarrow> i < length (block (caches s ! t)) \<Longrightarrow>
     get_block (set_block s t i cb) t i = cb"
  by (simp add: get_block_def caches_set_block)

lemma length_block_set_block:
  "length (block (caches (set_block s t i cb) ! t)) = length (block (caches s ! t))"
  by (simp add: caches_set_block nth_upd_if)

lemma cache_inv_validate:
  assumes c: "cache_inv c" and i: "i < length (block c)" and b: "blk_no (block c ! i) = b"
    and u: "\<forall>j<length (block c). j \<noteq> i \<longrightarrow> state (block c ! j) = MFAT_INVALID \<or> blk_no (block c ! j) \<noteq> b"
  shows "cache_inv (c\<lparr>block := (block c)[i := (block c ! i)\<lparr>buf := d, state := MFAT_VALID\<rparr>]\<rparr>)"
  using c i b u unfolding cache_inv_def
  by (auto simp: nth_upd_if)

lemma fit512_length [simp]: "length (fit512 d) = 512"
  by (auto simp: fit512_def)

text \<open>
  When the slot that the lookup returns is invalid, no other slot of the cache holds the
  block.
\<close>

lemma get_cached_block_unique:
  assumes inv: "ctx_cache_inv s" and t: "t < MFAT_NUM_CACHES"
    and g: "get_cached_block s b t = (Some i, s')"
    and st: "state (get_block s' t i) = MFAT_INVALID"
    and j: "j < length (block (caches s' ! t))" "j \<noteq> i"
  shows "state (block (caches s' ! t) ! j) = MFAT_INVALID \<or> blk_no (block (caches s' ! t) ! j) \<noteq> b"
proof -
  define c where "c = caches s ! t"
  define item_id where "item_id = select_item c b"
  define s1 where "s1 = set_cache s t (c\<lparr>pri := pri_shift item_id item_id (pri c)\<rparr>)"
  have cinv: "cache_inv c" using inv t by (simp add: ctx_cache_inv_def c_def)
  have lt: "item_id < length (block c)" using cinv by (simp add: item_id_def select_item_lt)
  have tl: "t < length (caches s)" using inv t by (simp add: ctx_cache_inv_def)
  have b1: "block (caches s1 ! t) = block c" using tl by (simp add: s1_def)
  have g1: "get_block s1 t item_id = block c ! item_id" using b1 by (simp add: get_block_def)
  have tl1: "t < length (caches s1)" using tl by (simp add: s1_def)
  have i: "i = item_id"
    using g dev_write_frame
    unfolding get_cached_block_def Let_def c_def [symmetric]
      item_id_def [symmetric] s1_def [symmetric]
    by (auto split: if_splits option.splits)
  have blocks: "block (caches s' ! t) = block c \<and> get_block s' t item_id = block c ! item_id \<or>
      (\<exists>cb. block (caches s' ! t) = (block c)[item_id := cb])"
    using g dev_write_frame b1 g1 tl1
    unfolding get_cached_block_def Let_def c_def [symmetric]
      item_id_def [symmetric] s1_def [symmetric]
    by (auto split: if_splits option.splits simp: caches_set_block get_block_def)
  have miss: "find_hit (block c) b 0 = None"
  proof (rule ccontr)
    assume "find_hit (block c) b 0 \<noteq> None"
    then obtain k where k: "find_hit (block c) b 0 = Some k" by auto
    from select_item_hit [OF k] have
      hit: "state (block c ! item_id) \<noteq> MFAT_INVALID" "blk_no (block c ! item_id) = b"
      by (simp_all add: item_id_def)
    with g g1 have "s' = s1"
      unfolding get_cached_block_def Let_def c_def [symmetric]
        item_id_def [symmetric] s1_def [symmetric]
      by auto
    with st i g1 hit show False by simp
  qed
  from blocks j i have jj: "j < length (block c)" "block (caches s' ! t) ! j = block c ! j"
    by auto
  from select_item_miss [OF miss jj(1)] jj(2) show ?thesis by simp
qed

lemma read_block_frame_inv:
  assumes t: "t < MFAT_NUM_CACHES" and r: "read_block s b t = (r, s')"
  shows "files s' = files s \<and> partitions s' = partitions s \<and> initialized s' = initialized s \<and>
         active_partition s' = active_partition s \<and> read_fun s' = read_fun s \<and>
         write_fun s' = write_fun s \<and> (ctx_cache_inv s \<longrightarrow> ctx_cache_inv s')"
proof (cases "get_cached_block s b t")
  case (Pair r1 s1)
  note fr = get_cached_block_frame [OF Pair]
  show ?thesis
  proof (cases r1)
    case None
    with Pair r fr get_cached_block_inv [OF _ t Pair] show ?thesis
      by (auto simp: read_block_def)
  next
    case (Some i)
    show ?thesis
    proof (cases "state (get_block s1 t i) = MFAT_INVALID \<and> dev_read s1 b \<noteq> None")
      case False
      with Pair Some r fr get_cached_block_inv [OF _ t Pair] show ?thesis
        by (auto simp: read_block_def split: option.splits if_splits)
    next
      case True
      then obtain d where d: "dev_read s1 b = Some d" by auto
      with True Pair Some r have s': "s' = set_block s1 t i
          ((get_block s1 t i)\<lparr>buf := d, state := MFAT_VALID\<rparr>)"
        by (auto simp: read_block_def)
      have "ctx_cache_inv s'" if inv: "ctx_cache_inv s"
      proof -
        have inv1: "ctx_cache_inv s1" using inv t Pair by (rule get_cached_block_inv)
        from get_cached_block_slot [OF inv t Pair [unfolded Some]] have
          il: "i < length (block (caches s1 ! t))" and ib: "blk_no (get_block s1 t i) = b"
          by simp_all
        have u: "\<forall>j<length (block (caches s1 ! t)). j \<noteq> i \<longrightarrow>
            state (block (caches s1 ! t) ! j) = MFAT_INVALID \<or> blk_no (block (caches s1 ! t) ! j) \<noteq> b"
          using get_cached_block_unique [OF inv t Pair [unfolded Some]] True by blast
        have c1: "cache_inv (caches s1 ! t)" using inv1 t by (simp add: ctx_cache_inv_def)
        show ?thesis
          unfolding s' set_block_def get_block_def
          using cache_inv_validate [OF c1 il ib [unfolded get_block_def] u] inv1
          by (intro ctx_cache_inv_set_cache)
      qed
      with fr show ?thesis by (simp add: s')
    qed
  qed
qed

text \<open>
  With clean coherent caches, \<open>read_block\<close> returns the block that the read callback
  returns, and fails only when the callback fails.
\<close>

lemma read_block_ok:
  assumes ok: "cache_ok s" and t: "t < MFAT_NUM_CACHES" and r: "read_block s b t = (r, s')"
  shows "cache_ok s' \<and> custom s' = custom s \<and>
         (case r of None \<Rightarrow> dev_read s b = None
          | Some i \<Rightarrow> dev_read s b = Some (buf (get_block s' t i)))"
proof (cases "get_cached_block s b t")
  case (Pair r1 s1)
  from get_cached_block_ok [OF ok t Pair] obtain i where
    ok1: "cache_ok s1" and cust: "custom s1 = custom s" and r1: "r1 = Some i" by auto
  note g = Pair [unfolded r1]
  from ok have inv: "ctx_cache_inv s" by (simp add: cache_ok_def)
  from get_cached_block_frame [OF g] cust have dr: "dev_read s1 = dev_read s"
    by (intro dev_read_cong) simp_all
  from get_cached_block_slot [OF inv t g] have
    il: "i < length (block (caches s1 ! t))" and ib: "blk_no (get_block s1 t i) = b"
    by simp_all
  from ok1 have tl: "t < length (caches s1)" using t by (simp add: cache_ok_def ctx_cache_inv_def)
  have mem: "get_block s1 t i \<in> slots s1"
    using il tl unfolding slots_def get_block_def by (auto intro!: bexI [of _ "caches s1 ! t"])
  show ?thesis
  proof (cases "state (get_block s1 t i) = MFAT_INVALID")
    case False
    with g r have "r = Some i" "s' = s1" by (auto simp: read_block_def)
    moreover from ok1 mem False ib have "dev_read s1 b = Some (buf (get_block s1 t i))"
      by (auto simp: cache_ok_def coherent_def)
    ultimately show ?thesis using ok1 cust dr by simp
  next
    case True
    show ?thesis
    proof (cases "dev_read s1 b")
      case None
      with True g r have "r = None" "s' = s1" by (auto simp: read_block_def)
      with None ok1 cust dr show ?thesis by simp
    next
      case (Some d)
      define cb where "cb = (get_block s1 t i)\<lparr>buf := d, state := MFAT_VALID\<rparr>"
      from Some True g r have rs: "r = Some i" "s' = set_block s1 t i cb"
        by (auto simp: read_block_def cb_def)
      have sub: "slots s' \<subseteq> insert cb (slots s1)" unfolding rs by (rule slots_set_block)
      have cust': "custom s' = custom s1" by (simp add: rs)
      have dr': "dev_read s' = dev_read s1" by (rule dev_read_cong) (simp_all add: rs)
      have len: "length d = 512" using Some by (auto simp: dev_read_def)
      from ok1 have nd: "no_dirty s1" and co: "coherent s1" and b5: "bufs512 s1"
        by (simp_all add: cache_ok_def)
      have "no_dirty s'" using nd sub unfolding no_dirty_def by (fastforce simp: cb_def)
      moreover have "coherent s'"
        using co sub Some ib unfolding coherent_def dr' by (fastforce simp: cb_def)
      moreover have "bufs512 s'" using b5 sub len unfolding bufs512_def by (fastforce simp: cb_def)
      moreover have "ctx_cache_inv s'"
        using read_block_frame_inv [OF t r] inv by simp
      moreover have "get_block s' t i = cb"
        unfolding rs using tl il by (rule get_block_set_block)
      ultimately show ?thesis using rs cust cust' Some dr by (simp add: cache_ok_def cb_def)
    qed
  qed
qed

lemma read_block_step:
  assumes t: "t < MFAT_NUM_CACHES" and r: "read_block s b t = (r, s')"
  shows "cache_step s s'"
  using read_block_frame_inv [OF t r] read_block_ok [OF _ t r]
  by (auto simp: cache_step_def cache_pres_def)

lemma read_block_slot:
  assumes inv: "ctx_cache_inv s" and t: "t < MFAT_NUM_CACHES"
    and r: "read_block s b t = (Some i, s')"
  shows "i < length (block (caches s' ! t)) \<and> blk_no (get_block s' t i) = b \<and>
         state (get_block s' t i) \<noteq> MFAT_INVALID"
proof (cases "get_cached_block s b t")
  case (Pair r1 s1)
  with r have r1: "r1 = Some i" by (auto simp: read_block_def split: option.splits if_splits)
  note g = Pair [unfolded r1]
  from get_cached_block_slot [OF inv t g] have
    il: "i < length (block (caches s1 ! t))" and ib: "blk_no (get_block s1 t i) = b"
    by simp_all
  have tl: "t < length (caches s1)"
    using get_cached_block_inv [OF inv t g] t by (simp add: ctx_cache_inv_def)
  show ?thesis
    using r g il ib tl
    by (auto simp: read_block_def get_block_set_block length_block_set_block
        split: option.splits if_splits)
qed

section \<open>Byte codec and FAT entries\<close>

lemma unat_ucast8 [simp]: "unat (ucast (x :: u8) :: u32) = unat x"
  by (simp add: unsigned_ucast_eq take_bit_nat_eq_self unsigned_less [of x, simplified] less_trans [OF unsigned_less])

lemma u8_lt: "unat (x :: u8) < 256"
  using unsigned_less [of x] by simp

lemma unat_push8: "unat (push_bit 8 (ucast (y :: u8)) :: u32) = 256 * unat y"
  using u8_lt [of y]
  by (subst unsigned_push_bit_eq) (simp add: take_bit_nat_eq_self push_bit_eq_mult)

lemma unat_push16: "unat (push_bit 16 (ucast (y :: u8)) :: u32) = 65536 * unat y"
  using u8_lt [of y]
  by (subst unsigned_push_bit_eq) (simp add: take_bit_nat_eq_self push_bit_eq_mult)

lemma unat_push24: "unat (push_bit 24 (ucast (y :: u8)) :: u32) = 16777216 * unat y"
  using u8_lt [of y]
  by (subst unsigned_push_bit_eq) (simp add: take_bit_nat_eq_self push_bit_eq_mult)

lemma unat_le16:
  "unat ((ucast (x :: u8) :: u32) OR push_bit 8 (ucast (y :: u8))) = unat x + 256 * unat y"
proof -
  have "(ucast x :: u32) OR push_bit 8 (ucast y) = ucast x + push_bit 8 (ucast y)"
    by (rule disjunctive_add_eq_or [symmetric])
      (auto simp: bit_eq_iff bit_simps dest: bit_imp_le_length)
  moreover have "unat ((ucast x :: u32) + push_bit 8 (ucast y)) = unat x + 256 * unat y"
    using u8_lt [of x] u8_lt [of y] unat_add_lem [of "ucast x :: u32" "push_bit 8 (ucast y)"]
    by (simp add: unat_push8)
  ultimately show ?thesis by simp
qed

lemma unat_le32:
  "unat ((ucast (a :: u8) :: u32) OR push_bit 8 (ucast (b :: u8)) OR push_bit 16 (ucast (c :: u8))
      OR push_bit 24 (ucast (d :: u8)))
   = unat a + 256 * unat b + 65536 * unat c + 16777216 * unat d"
proof -
  let ?w = "(ucast a :: u32) OR push_bit 8 (ucast b)"
  let ?v = "?w OR push_bit 16 (ucast c)"
  have w: "unat ?w = unat a + 256 * unat b" by (rule unat_le16)
  have "?v = ?w + push_bit 16 (ucast c)"
    by (rule disjunctive_add_eq_or [symmetric])
      (auto simp: bit_eq_iff bit_simps dest: bit_imp_le_length)
  moreover have "unat (?w + push_bit 16 (ucast c)) = unat ?w + 65536 * unat c"
    using u8_lt [of a] u8_lt [of b] u8_lt [of c] unat_add_lem [of ?w "push_bit 16 (ucast c)"]
    by (simp add: unat_push16 w)
  ultimately have v: "unat ?v = unat a + 256 * unat b + 65536 * unat c" by (simp only: w)
  have d: "?v OR push_bit 24 (ucast d) = ?v + push_bit 24 (ucast d)"
    by (rule disjunctive_add_eq_or [symmetric])
      (auto simp: bit_eq_iff bit_simps dest: bit_imp_le_length)
  have "unat ((ucast a :: u32) OR push_bit 8 (ucast b) OR push_bit 16 (ucast c)
      OR push_bit 24 (ucast d)) = unat (?v OR push_bit 24 (ucast d))"
    by (simp only: or.assoc)
  also have "\<dots> = unat (?v + push_bit 24 (ucast d))" by (simp only: d)
  also have "\<dots> = unat ?v + 16777216 * unat d"
    using u8_lt [of a] u8_lt [of b] u8_lt [of c] u8_lt [of d]
      unat_add_lem [of ?v "push_bit 24 (ucast d)"]
    by (simp only: unat_push24 v) simp
  also have "\<dots> = unat a + 256 * unat b + 65536 * unat c + 16777216 * unat d"
    by (simp only: v)
  finally show ?thesis .
qed

lemma unat_and_0fffffff: "unat ((x :: u32) AND 0x0fffffff) = unat x mod 2 ^ 28"
proof -
  have "(0x0fffffff :: u32) = mask 28" by (simp add: mask_eq_exp_minus_1)
  then have "x AND 0x0fffffff = take_bit 28 x" by (simp only: take_bit_eq_mask)
  then have "unat (x AND 0x0fffffff) = take_bit 28 (unat x)" by (simp only: unsigned_take_bit_eq)
  then show ?thesis by (simp only: take_bit_eq_mod)
qed

lemma unat_or_0fff0000:
  assumes "unat (w :: u32) < 65536"
  shows "unat (w OR 0x0fff0000) = unat w + 0x0fff0000"
proof -
  have "w < 2 ^ 16" using assms by (simp add: word_less_nat_alt)
  then have w: "w = take_bit 16 w" by (simp add: less_mask_eq take_bit_eq_mask)
  have "w OR 0x0fff0000 = w + 0x0fff0000"
  proof (rule disjunctive_add_eq_or [symmetric])
    have "(0x0fff0000 :: u32) = push_bit 16 0x0fff" by simp
    then show "w AND 0x0fff0000 = 0"
      by (subst w) (auto simp: bit_eq_iff bit_simps simp del: push_bit_numeral)
  qed
  moreover have "unat (w + 0x0fff0000) = unat w + unat (0x0fff0000 :: u32)"
    using assms unat_add_lem [of w "0x0fff0000"] by simp
  ultimately show ?thesis by simp
qed

lemma get_word_unat: "unat (get_word b i) = unat (b ! i) + 256 * unat (b ! (i + 1))"
  unfolding get_word_def by (rule unat_le16)

lemma get_dword_unat:
  "unat (get_dword b i) =
     unat (b ! i) + 256 * unat (b ! (i + 1)) + 65536 * unat (b ! (i + 2))
       + 16777216 * unat (b ! (i + 3))"
  unfolding get_dword_def by (rule unat_le32)

lemma get_word_lt: "unat (get_word b i) < 65536"
  using u8_lt [of "b ! i"] u8_lt [of "b ! (i + 1)"] by (simp add: get_word_unat)

text \<open>The FAT entry as a number: masked to 28 bits, or with the FAT16 special codes moved.\<close>

lemma fat_entry_unat:
  "unat (fat_entry part b i) =
     (if ptype part = MFAT_TYPE_FAT32 then unat (get_dword b i) AND 0x0fffffff
      else if unat (get_word b i) \<ge> 0xfff7 then unat (get_word b i) OR 0x0fff0000
      else unat (get_word b i))"
  by (simp add: fat_entry_def Let_def unsigned_and_eq unsigned_or_eq word_le_nat_alt)

lemma next_cluster_step:
  assumes n: "next_cluster s part cluster = (r, s')"
  shows "cache_step s s'"
proof (cases "read_block s (fat_block part cluster) MFAT_CACHE_FAT")
  case (Pair r1 s1)
  have "cache_step s s1" using read_block_step [OF _ Pair] by simp
  moreover from n Pair have "s' = s1"
    by (auto simp: next_cluster_def Let_def split: option.splits if_splits)
  ultimately show ?thesis by simp
qed

lemma cluster_pos_advance_step:
  assumes a: "cluster_pos_advance s cpos part = (r, s')"
  shows "cache_step s s'"
proof (cases "block_in_cluster cpos + 1 = blocks_per_cluster part")
  case False
  with a show ?thesis by (auto simp: cluster_pos_advance_def Let_def)
next
  case True
  obtain r1 s1 where n: "next_cluster s part (cluster_no cpos) = (r1, s1)"
    by (cases "next_cluster s part (cluster_no cpos)")
  with a True have "s' = s1"
    by (auto simp: cluster_pos_advance_def Let_def split: option.splits)
  with next_cluster_step [OF n] show ?thesis by simp
qed

section \<open>Calls on a context that is not initialized\<close>

text \<open>
  C10: every integer-returning operation other than the mount returns \<open>-1\<close> on a context
  that is not initialized (before a successful mount, or after the unmount, which clears
  the flag), and leaves the context as it is.
\<close>

theorem uninitialized_fails:
  assumes "\<not> initialized s"
  shows "mfat_select_partition s partition_no = (Fail, s) \<and>
         mfat_open s path oflg = (Fail, s) \<and>
         mfat_close s fd = (Fail, s) \<and>
         mfat_read s fd nbyte = (Fail, s) \<and>
         mfat_write s fd wbuf nbyte = (Fail, s) \<and>
         mfat_lseek s fd offs whence = (Fail, s) \<and>
         mfat_stat s path stat_given = (Fail, s) \<and>
         mfat_fstat s fd = (Fail, s) \<and>
         \<not> initialized (mfat_unmount s')"
proof -
  have "mfat_select_partition s partition_no = (Fail, s)"
    using assms by (simp add: mfat_select_partition_def)
  moreover have "mfat_open s path oflg = (Fail, s)" using assms by (simp add: mfat_open_def)
  moreover have "mfat_close s fd = (Fail, s)" using assms by (simp add: mfat_close_def)
  moreover have "mfat_read s fd nbyte = (Fail, s)" using assms by (simp add: mfat_read_def)
  moreover have "mfat_write s fd wbuf nbyte = (Fail, s)"
    using assms by (simp add: mfat_write_def)
  moreover have "mfat_lseek s fd offs whence = (Fail, s)"
    using assms by (simp add: mfat_lseek_def)
  moreover have "mfat_stat s path stat_given = (Fail, s)"
    using assms by (simp add: mfat_stat_def)
  moreover have "mfat_fstat s fd = (Fail, s)" using assms by (simp add: mfat_fstat_def)
  moreover have "\<not> initialized (mfat_unmount s')" by (simp add: mfat_unmount_def)
  ultimately show ?thesis by simp
qed

theorem uninitialized_fails_witness:
  "\<not> initialized (mfat_unmount ex_ctx) \<and>
   mfat_select_partition (mfat_unmount ex_ctx) 0 = (Fail, mfat_unmount ex_ctx) \<and>
   mfat_open (mfat_unmount ex_ctx) (Some (bytes_of ''/HELLO.TXT'')) MFAT_O_RDONLY
     = (Fail, mfat_unmount ex_ctx) \<and>
   mfat_close (mfat_unmount ex_ctx) 0 = (Fail, mfat_unmount ex_ctx) \<and>
   mfat_read (mfat_unmount ex_ctx) 0 100 = (Fail, mfat_unmount ex_ctx) \<and>
   mfat_write (mfat_unmount ex_ctx) 0 [] 100 = (Fail, mfat_unmount ex_ctx) \<and>
   mfat_lseek (mfat_unmount ex_ctx) 0 0 MFAT_SEEK_SET = (Fail, mfat_unmount ex_ctx) \<and>
   mfat_stat (mfat_unmount ex_ctx) (Some (bytes_of ''/HELLO.TXT'')) True
     = (Fail, mfat_unmount ex_ctx) \<and>
   mfat_fstat (mfat_unmount ex_ctx) 0 = (Fail, mfat_unmount ex_ctx)"
proof -
  have u: "\<not> initialized (mfat_unmount ex_ctx)" by (simp add: mfat_unmount_def)
  from uninitialized_fails [OF u, of 0 "Some (bytes_of ''/HELLO.TXT'')" MFAT_O_RDONLY 0 100 "[]"
    0 MFAT_SEEK_SET True ex_ctx] u
  show ?thesis by simp
qed

section \<open>Name canonicalization\<close>


lemma canonicalize_char_valid_id: "valid_char c \<Longrightarrow> canonicalize_char c = c"
  by (simp add: canonicalize_char_def valid_char_def)

lemma upper_of_lower:
  assumes "(c :: u8) \<ge> 0x61" and "c \<le> 0x7a"
  shows "c - 0x61 + 0x41 \<ge> 0x41 \<and> c - 0x61 + 0x41 \<le> 0x5a"
proof -
  from assms have lo: "97 \<le> unat c" and hi: "unat c \<le> 122"
    by (simp_all add: word_le_nat_alt)
  have "(32 :: u8) \<le> c" using lo by (simp add: word_le_nat_alt)
  then have "unat (c - 32) = unat c - 32" by (simp add: unat_sub)
  moreover have "c - 0x61 + 0x41 = c - 32" by simp
  ultimately have "unat (c - 0x61 + 0x41) = unat c - 32" by simp
  with lo hi show ?thesis by (auto simp: word_le_nat_alt)
qed

lemma canonicalize_char_valid: "valid_char (canonicalize_char c)"
proof (cases "valid_char c")
  case True
  then show ?thesis by (simp add: canonicalize_char_valid_id)
next
  case False
  show ?thesis
  proof (cases "c \<ge> 0x61 \<and> c \<le> 0x7a")
    case True
    with False have "canonicalize_char c = c - 0x61 + 0x41"
      by (simp add: canonicalize_char_def valid_char_def)
    with upper_of_lower True show ?thesis by (simp add: valid_char_def)
  next
    case no: False
    with False have "canonicalize_char c = 0x21"
      by (auto simp: canonicalize_char_def valid_char_def)
    then show ?thesis by (simp add: valid_char_def)
  qed
qed

lemma canonicalize_char_idem: "canonicalize_char (canonicalize_char c) = canonicalize_char c"
  by (simp add: canonicalize_char_valid canonicalize_char_valid_id)

lemma valid_char_not_special:
  "valid_char c \<Longrightarrow> c \<noteq> 0 \<and> c \<noteq> 0x2e \<and> c \<noteq> 0x2f \<and> c \<noteq> 0x5c \<and> c \<noteq> 0x20 \<and> c \<noteq> 0xe5"
  by (auto simp: valid_char_def)

lemma canonicalize_char_space: "canonicalize_char 0x20 = 0x21"
  by (simp add: canonicalize_char_def)

lemma name_part_props:
  "name_part path pos name = (c, pos', name') \<Longrightarrow>
     pos < pos' \<and> c = cstr_at path (pos' - 1) \<and> (c = 0 \<or> c = 0x2e \<or> c = 0x2f \<or> c = 0x5c) \<and>
     length name \<le> length name' \<and> (length name \<le> 8 \<longrightarrow> length name' \<le> 8) \<and>
     (\<forall>x\<in>set name'. x \<in> set name \<or> valid_char x)"
proof (induction path pos name arbitrary: c pos' name' rule: name_part.induct)
  case (1 path pos name)
  define x where "x = cstr_at path pos"
  show ?case
  proof (cases "x = 0 \<or> x = 0x2e \<or> x = 0x2f \<or> x = 0x5c")
    case True
    with "1.prems" have "c = x" "pos' = pos + 1" "name' = name"
      by (simp_all add: name_part.simps [of path pos name] x_def [symmetric] Let_def)
    with True show ?thesis by (auto simp: x_def)
  next
    case False
    define name1 where "name1 = (if length name < 8 then name @ [canonicalize_char x] else name)"
    from False "1.prems" have r: "name_part path (pos + 1) name1 = (c, pos', name')"
      by (simp add: name_part.simps [of path pos name] x_def [symmetric] Let_def name1_def)
    note ih = "1.IH" [OF x_def False r [unfolded name1_def], folded name1_def]
    from ih have a: "pos < pos'" and b: "c = cstr_at path (pos' - 1)"
      and t: "(c = 0 \<or> c = 0x2e \<or> c = 0x2f \<or> c = 0x5c)"
      and d: "length name1 \<le> length name'" and e: "length name1 \<le> 8 \<longrightarrow> length name' \<le> 8"
      and f: "\<forall>x\<in>set name'. x \<in> set name1 \<or> valid_char x"
      by auto
    have sub: "set name1 \<subseteq> insert (canonicalize_char x) (set name)"
      by (auto simp: name1_def)
    have len: "length name \<le> length name1" "length name \<le> 8 \<longrightarrow> length name1 \<le> 8"
      by (auto simp: name1_def)
    from f sub canonicalize_char_valid [of x] have
      g: "\<forall>x\<in>set name'. x \<in> set name \<or> valid_char x" by auto
    from a b t d e len g show ?thesis by auto
  qed
qed

lemma ext_part_props:
  "ext_part path pos name = (c, pos', name') \<Longrightarrow>
     pos < pos' \<and> c = cstr_at path (pos' - 1) \<and> (c = 0 \<or> c = 0x2f \<or> c = 0x5c) \<and>
     length name \<le> length name' \<and> (length name \<le> 11 \<longrightarrow> length name' \<le> 11) \<and>
     (\<forall>x\<in>set name'. x \<in> set name \<or> valid_char x)"
proof (induction path pos name arbitrary: c pos' name' rule: ext_part.induct)
  case (1 path pos name)
  define x where "x = cstr_at path pos"
  show ?case
  proof (cases "x = 0 \<or> x = 0x2f \<or> x = 0x5c")
    case True
    with "1.prems" have "c = x" "pos' = pos + 1" "name' = name"
      by (simp_all add: ext_part.simps [of path pos name] x_def [symmetric] Let_def)
    with True show ?thesis by (auto simp: x_def)
  next
    case False
    define name1 where "name1 = (if length name < 11 then name @ [canonicalize_char x] else name)"
    from False "1.prems" have r: "ext_part path (pos + 1) name1 = (c, pos', name')"
      by (simp add: ext_part.simps [of path pos name] x_def [symmetric] Let_def name1_def)
    note ih = "1.IH" [OF x_def False r [unfolded name1_def], folded name1_def]
    from ih have a: "pos < pos'" and b: "c = cstr_at path (pos' - 1)"
      and t: "(c = 0 \<or> c = 0x2f \<or> c = 0x5c)"
      and d: "length name1 \<le> length name'" and e: "length name1 \<le> 11 \<longrightarrow> length name' \<le> 11"
      and f: "\<forall>x\<in>set name'. x \<in> set name1 \<or> valid_char x"
      by auto
    have sub: "set name1 \<subseteq> insert (canonicalize_char x) (set name)"
      by (auto simp: name1_def)
    have len: "length name \<le> length name1" "length name \<le> 11 \<longrightarrow> length name1 \<le> 11"
      by (auto simp: name1_def)
    from f sub canonicalize_char_valid [of x] have
      g: "\<forall>x\<in>set name'. x \<in> set name \<or> valid_char x" by auto
    from a b t d e len g show ?thesis by auto
  qed
qed

text \<open>
  A canonical name has 11 bytes, each a valid character or a space, and a next index that
  is not negative lies after the index the round started from and inside the path.
\<close>

lemma canonicalize_round_props:
  assumes "canonicalize_round path next_idx = (name, k)"
  shows "length name = 11 \<and> (\<forall>x\<in>set name. valid_char x \<or> x = 0x20) \<and>
         (k \<ge> 0 \<longrightarrow> next_idx < nat k \<and> nat k < length path)"
proof -
  obtain c pos nm where np: "name_part path next_idx [] = (c, pos, nm)"
    by (cases "name_part path next_idx []") auto
  from name_part_props [OF np] have
    p1: "next_idx < pos" "length nm \<le> 8" "\<forall>x\<in>set nm. valid_char x" by auto
  define name1 where "name1 = nm @ replicate (8 - length nm) 0x20"
  have l1: "length name1 = 8" using p1 by (simp add: name1_def)
  have v1: "\<forall>x\<in>set name1. valid_char x \<or> x = 0x20" using p1 by (auto simp: name1_def)
  obtain c1 pos1 name2 where
    ep: "(if c = 0x2e then ext_part path pos name1 else (c, pos, name1)) = (c1, pos1, name2)"
    by (cases "if c = 0x2e then ext_part path pos name1 else (c, pos, name1)") auto
  have p2: "pos \<le> pos1 \<and> c1 = cstr_at path (pos1 - 1) \<and> 8 \<le> length name2 \<and> length name2 \<le> 11 \<and>
      (\<forall>x\<in>set name2. valid_char x \<or> x = 0x20)"
  proof (cases "c = 0x2e")
    case True
    with ep have "ext_part path pos name1 = (c1, pos1, name2)" by simp
    from ext_part_props [OF this] l1 v1 show ?thesis by auto
  next
    case False
    with ep name_part_props [OF np] l1 v1 show ?thesis by auto
  qed
  define name3 where "name3 = name2 @ replicate (11 - length name2) 0x20"
  have res: "name = name3 \<and>
      k = (if (c1 = 0x2f \<or> c1 = 0x5c) \<and> cstr_at path pos1 \<noteq> 0 then int pos1 else - 1)"
    using assms np ep [unfolded name1_def]
    by (simp add: canonicalize_round_def Let_def name3_def)
  have "length name3 = 11" using p2 by (simp add: name3_def)
  moreover have "\<forall>x\<in>set name3. valid_char x \<or> x = 0x20" using p2 by (auto simp: name3_def)
  moreover have "k \<ge> 0 \<longrightarrow> next_idx < nat k \<and> nat k < length path"
    using res p1 p2 by (auto simp: cstr_at_def split: if_splits)
  ultimately show ?thesis using res by simp
qed

lemma canonicalize_loop_props:
  "canonicalize_loop path next_idx = (name, k) \<Longrightarrow>
     length name = 11 \<and> (\<forall>x\<in>set name. valid_char x \<or> x = 0x20) \<and>
     (k \<ge> 0 \<longrightarrow> next_idx < nat k \<and> nat k < length path)"
proof (induction path next_idx arbitrary: name k rule: canonicalize_loop.induct)
  case (1 path next_idx)
  obtain name1 k1 where r: "canonicalize_round path next_idx = (name1, k1)"
    by (cases "canonicalize_round path next_idx") auto
  note rp = canonicalize_round_props [OF r]
  show ?case
  proof (cases "k1 \<ge> 0 \<and> cmpbuf name1 0 (replicate 11 0x20) 0 11
      \<and> next_idx < nat k1 \<and> nat k1 < length path")
    case True
    with "1.prems" r have "canonicalize_loop path (nat k1) = (name, k)"
      by (simp add: canonicalize_loop.simps [of path next_idx])
    from "1.IH" [OF r [symmetric] True this] True show ?thesis by auto
  next
    case False
    with "1.prems" r have "name = name1" "k = k1"
      by (auto simp: canonicalize_loop.simps [of path next_idx])
    with rp show ?thesis by simp
  qed
qed

text \<open>
  The loop as the source has it: the two bounds in the condition of \<open>canonicalize_loop\<close>
  always hold.
\<close>

lemma canonicalize_loop_source:
  "canonicalize_loop path next_idx =
     (case canonicalize_round path next_idx of
        (name, next_idx1) \<Rightarrow>
          (if next_idx1 \<ge> 0 \<and> cmpbuf name 0 (replicate 11 0x20) 0 11
           then canonicalize_loop path (nat next_idx1)
           else (name, next_idx1)))"
proof (cases "canonicalize_round path next_idx")
  case (Pair name k)
  from canonicalize_round_props [OF Pair] Pair show ?thesis
    by (subst canonicalize_loop.simps) auto
qed

lemma canonicalize_fname_props:
  assumes "canonicalize_fname path = (name, k)"
  shows "length name = 11" and "\<forall>x\<in>set name. valid_char x \<or> x = 0x20"
    and "k \<ge> 0 \<Longrightarrow> 0 < k \<and> nat k < length path"
  using canonicalize_loop_props [OF assms [unfolded canonicalize_fname_def]] by auto

text \<open>The name loop on a path without a separator from \<open>pos\<close> on.\<close>

lemma name_part_all:
  assumes "\<forall>x\<in>set (drop pos path). x \<noteq> 0 \<and> x \<noteq> 0x2e \<and> x \<noteq> 0x2f \<and> x \<noteq> 0x5c"
    and "pos \<le> length path" and "length name \<le> 8"
  shows "name_part path pos name =
           (0, length path + 1, take 8 (name @ map canonicalize_char (drop pos path)))"
  using assms
proof (induction "length path - pos" arbitrary: pos name)
  case 0
  then have "pos = length path" by simp
  with "0.prems" show ?case
    by (simp add: name_part.simps [of path "length path" name] cstr_at_def)
next
  case (Suc n)
  then have lt: "pos < length path" by simp
  define x where "x = path ! pos"
  have dr: "drop pos path = x # drop (pos + 1) path"
    using lt by (simp add: x_def Cons_nth_drop_Suc)
  with Suc.prems have nx: "x \<noteq> 0 \<and> x \<noteq> 0x2e \<and> x \<noteq> 0x2f \<and> x \<noteq> 0x5c" by simp
  define name1 where "name1 = (if length name < 8 then name @ [canonicalize_char x] else name)"
  have step: "name_part path pos name = name_part path (pos + 1) name1"
    using lt nx by (simp add: name_part.simps [of path pos name] cstr_at_def x_def name1_def)
  have "name_part path (pos + 1) name1 =
      (0, length path + 1, take 8 (name1 @ map canonicalize_char (drop (pos + 1) path)))"
  proof (rule Suc.hyps(1))
    show "n = length path - (pos + 1)" using Suc.hyps(2) by simp
    show "\<forall>x\<in>set (drop (pos + 1) path). x \<noteq> 0 \<and> x \<noteq> 0x2e \<and> x \<noteq> 0x2f \<and> x \<noteq> 0x5c"
      using Suc.prems(1) dr by simp
    show "pos + 1 \<le> length path" using lt by simp
    show "length name1 \<le> 8" using Suc.prems(3) by (simp add: name1_def)
  qed
  moreover have "take 8 (name1 @ map canonicalize_char (drop (pos + 1) path)) =
      take 8 (name @ map canonicalize_char (drop pos path))"
    using Suc.prems(3) by (cases "length name < 8") (simp_all add: name1_def dr take_Cons')
  ultimately show ?case using step by simp
qed

text \<open>The canonicalizer on a name that is canonical already.\<close>

lemma canonicalize_fname_canonical:
  assumes len: "length r = 11" and val: "\<forall>x\<in>set r. valid_char x \<or> x = 0x20"
  shows "canonicalize_fname r =
           (map (\<lambda>c. if c = 0x20 then 0x21 else c) (take 8 r) @ replicate 3 0x20, - 1)"
proof -
  have ns: "x \<noteq> 0 \<and> x \<noteq> 0x2e \<and> x \<noteq> 0x2f \<and> x \<noteq> 0x5c" if "x \<in> set r" for x
  proof -
    from that val have "valid_char x \<or> x = 0x20" by blast
    then show ?thesis using valid_char_not_special [of x] by auto
  qed
  then have nsep: "\<forall>x\<in>set (drop 0 r). x \<noteq> 0 \<and> x \<noteq> 0x2e \<and> x \<noteq> 0x2f \<and> x \<noteq> 0x5c"
    by simp
  have np: "name_part r 0 [] = (0, length r + 1, take 8 ([] @ map canonicalize_char (drop 0 r)))"
    by (rule name_part_all [OF nsep]) simp_all
  have "canonicalize_char x = (if x = 0x20 then 0x21 else x)" if "x \<in> set r" for x
  proof -
    from that val have "valid_char x \<or> x = 0x20" by blast
    then show ?thesis
      using valid_char_not_special [of x]
      by (auto simp: canonicalize_char_space canonicalize_char_valid_id)
  qed
  then have "map canonicalize_char r = map (\<lambda>c. if c = 0x20 then 0x21 else c) r"
    by simp
  with np have np': "name_part r 0 [] =
      (0, 12, map (\<lambda>c. if c = 0x20 then 0x21 else c) (take 8 r))"
    by (simp add: len take_map)
  have "canonicalize_round r 0 =
      (map (\<lambda>c. if c = 0x20 then 0x21 else c) (take 8 r) @ replicate 3 0x20, - 1)"
    by (simp add: canonicalize_round_def np' len Let_def)
  then show ?thesis
    by (simp add: canonicalize_fname_def canonicalize_loop.simps [of r 0])
qed

text \<open>
  C9, as the code has it: the canonicalizer is not idempotent, because a space is not a
  valid character and becomes \<open>!\<close>. Fed its own 11-byte result, it returns the first 8
  bytes of that result with every space replaced by \<open>!\<close>, followed by three spaces. So
  the second result equals the first exactly when the first has no space among its
  first 8 bytes and three spaces after them (a name part of at least 8 characters and no
  extension). The canonicalization of one character is idempotent.
\<close>

theorem canonicalize_twice:
  "fst (canonicalize_fname (fst (canonicalize_fname path))) =
     map (\<lambda>c. if c = 0x20 then 0x21 else c) (take 8 (fst (canonicalize_fname path)))
       @ replicate 3 0x20 \<and>
   (fst (canonicalize_fname (fst (canonicalize_fname path))) = fst (canonicalize_fname path)
      \<longleftrightarrow> 0x20 \<notin> set (take 8 (fst (canonicalize_fname path)))
          \<and> drop 8 (fst (canonicalize_fname path)) = replicate 3 0x20) \<and>
   canonicalize_char (canonicalize_char c) = canonicalize_char c"
proof -
  define r where "r = fst (canonicalize_fname path)"
  obtain k where c: "canonicalize_fname path = (r, k)"
    by (cases "canonicalize_fname path") (simp add: r_def)
  note p = canonicalize_fname_props(1,2) [OF c]
  let ?f = "\<lambda>c :: u8. if c = 0x20 then 0x21 else c"
  have twice: "fst (canonicalize_fname r) = map ?f (take 8 r) @ replicate 3 0x20"
    using canonicalize_fname_canonical [OF p] by simp
  have split: "r = take 8 r @ drop 8 r" by simp
  have l8: "length (take 8 r) = 8" using p(1) by simp
  have "map ?f (take 8 r) @ replicate 3 0x20 = take 8 r @ drop 8 r \<longleftrightarrow>
      map ?f (take 8 r) = take 8 r \<and> replicate 3 0x20 = drop 8 r"
    by (rule append_eq_append_conv) simp
  then have "map ?f (take 8 r) @ replicate 3 0x20 = r \<longleftrightarrow>
      map ?f (take 8 r) = take 8 r \<and> replicate 3 0x20 = drop 8 r"
    by (simp only: append_take_drop_id)
  moreover have "map ?f (take 8 r) = take 8 r \<longleftrightarrow> 0x20 \<notin> set (take 8 r)"
  proof
    assume eq: "map ?f (take 8 r) = take 8 r"
    show "0x20 \<notin> set (take 8 r)"
    proof
      assume "0x20 \<in> set (take 8 r)"
      then obtain i where
        i: "i < length (take 8 r)" "take 8 r ! i = 0x20" by (auto simp: in_set_conv_nth)
      then have "map ?f (take 8 r) ! i = 0x21" by simp
      with eq i show False by simp
    qed
  next
    assume "0x20 \<notin> set (take 8 r)"
    then show "map ?f (take 8 r) = take 8 r" by (intro map_idI) auto
  qed
  ultimately have "fst (canonicalize_fname r) = r \<longleftrightarrow>
      0x20 \<notin> set (take 8 r) \<and> drop 8 r = replicate 3 0x20"
    using twice by auto
  with twice canonicalize_char_idem show ?thesis unfolding r_def by simp
qed

text \<open>
  The claim as the specification states it fails for the path \<^verbatim>\<open>a\<close>: its canonical name
  is \<open>A\<close> and ten spaces, and the canonical name of that is \<^verbatim>\<open>A!!!!!!!\<close> and three spaces.
\<close>

theorem canonicalize_twice_counterexample:
  "fst (canonicalize_fname (bytes_of ''a'')) = bytes_of ''A          '' \<and>
   fst (canonicalize_fname (fst (canonicalize_fname (bytes_of ''a'')))) = bytes_of ''A!!!!!!!   '' \<and>
   fst (canonicalize_fname (fst (canonicalize_fname (bytes_of ''a''))))
     \<noteq> fst (canonicalize_fname (bytes_of ''a''))"
  by code_simp

section \<open>Directory lookup\<close>






lemma find_loop_no_more:
  assumes c: "canonicalize_fname (drop path_pos path) = (fname, name_pos)"
    and d: "fst (dir_blocks s part fname (name_pos \<ge> 0) cpos
             (if cluster_no cpos \<noteq> 0 then 0xffffffff else blocks_left)) = DirNoMore \<or>
           fst (dir_blocks s part fname (name_pos \<ge> 0) cpos
             (if cluster_no cpos \<noteq> 0 then 0xffffffff else blocks_left)) = DirFalse"
  shows "fst (find_loop s part path path_pos cpos blocks_left) = Fail"
proof -
  obtain dr s1 where dr: "dir_blocks s part fname (name_pos \<ge> 0) cpos
      (if cluster_no cpos \<noteq> 0 then 0xffffffff else blocks_left) = (dr, s1)"
    by (cases "dir_blocks s part fname (name_pos \<ge> 0) cpos
      (if cluster_no cpos \<noteq> 0 then 0xffffffff else blocks_left)") auto
  with d have "dr = DirNoMore \<or> dr = DirFalse" by simp
  then show ?thesis
    by (subst find_loop.simps) (auto simp: c dr Let_def)
qed

text \<open>
  The loop over the path as the source has it: the bounds in the conditions of
  \<open>find_loop\<close> always hold for a parent part.
\<close>

lemma find_loop_source:
  "find_loop s part path path_pos cpos blocks_left =
     (case canonicalize_fname (drop path_pos path) of
        (fname, name_pos) \<Rightarrow>
          (let is_parent_dir = (name_pos \<ge> 0);
               blocks_left1 = (if cluster_no cpos \<noteq> 0 then 0xffffffff else blocks_left)
           in case dir_blocks s part fname is_parent_dir cpos blocks_left1 of
                (DirFalse, s1) \<Rightarrow> (Fail, s1)
              | (DirTrap, s1) \<Rightarrow> (Trap, s1)
              | (DirFile k offs, s1) \<Rightarrow> (Ok (k, offs), s1)
              | (DirNoMore, s1) \<Rightarrow> (Fail, s1)
              | (DirDescend cpos1, s1) \<Rightarrow>
                  (if is_parent_dir
                   then find_loop s1 part path (path_pos + nat name_pos) cpos1 0xffffffff
                   else (Fail, s1))
              | (DirBlocksDone cpos1, s1) \<Rightarrow>
                  (if is_parent_dir
                   then find_loop s1 part path (path_pos + nat name_pos) cpos1 0
                   else (Fail, s1))))"
proof (cases "canonicalize_fname (drop path_pos path)")
  case (Pair fname name_pos)
  from canonicalize_fname_props(3) [OF Pair] have
    "name_pos \<ge> 0 \<Longrightarrow> 0 < name_pos \<and> path_pos + nat name_pos < length path"
    by auto
  then have g: "(name_pos \<ge> 0 \<and> 0 < name_pos \<and> path_pos + nat name_pos < length path)
      = (name_pos \<ge> 0)" by auto
  show ?thesis
    by (subst find_loop.simps) (simp only: Pair prod.case Let_def g)
qed

section \<open>What the operations keep of the caches\<close>

lemma dir_next_block_step:
  "dir_next_block s cpos part = (r, s') \<Longrightarrow> cache_step s s'"
  by (auto simp: dir_next_block_def split: if_splits dest: cluster_pos_advance_step)

lemma dir_blocks_step:
  "dir_blocks s part fname is_parent_dir cpos blocks_left = (r, s') \<Longrightarrow> cache_step s s'"
proof (induction s part fname is_parent_dir cpos blocks_left arbitrary: r s'
    rule: dir_blocks.induct)
  case (1 s part fname is_parent_dir cpos blocks_left)
  note eq = "1.prems" [unfolded dir_blocks.simps [of s part fname is_parent_dir cpos blocks_left]]
  show ?case
  proof (cases "blocks_left > 0")
    case False
    with eq show ?thesis by simp
  next
    case bl: True
    obtain r1 s1 where rd: "read_block s (cluster_pos_blk_no cpos) MFAT_CACHE_DATA = (r1, s1)"
      by (cases "read_block s (cluster_pos_blk_no cpos) MFAT_CACHE_DATA")
    have st1: "cache_step s s1" using read_block_step [OF _ rd] by simp
    show ?thesis
    proof (cases r1)
      case None
      with eq bl rd st1 show ?thesis by simp
    next
      case (Some k)
      define b where "b = buf (get_block s1 MFAT_CACHE_DATA k)"
      obtain r2 s2 where nb: "dir_next_block s1 cpos part = (r2, s2)"
        by (cases "dir_next_block s1 cpos part")
      have st2: "cache_step s s2"
        using st1 dir_next_block_step [OF nb] by (rule cache_step_trans)
      show ?thesis
      proof (cases "scan_block b fname 0")
        case NoMoreEntries
        with eq bl rd Some nb st2 show ?thesis
          by (auto simp: Let_def b_def split: option.splits)
      next
        case (FoundEntry offs)
        with eq bl rd Some st1 show ?thesis
          by (auto simp: Let_def b_def split: if_splits res.splits)
      next
        case NotInBlock
        show ?thesis
        proof (cases r2)
          case None
          with eq bl rd Some nb st2 NotInBlock show ?thesis by (simp add: Let_def b_def)
        next
          case (Some cpos1)
          with eq bl rd \<open>r1 = Some k\<close> nb NotInBlock have
            rec: "dir_blocks s2 part fname is_parent_dir cpos1 (blocks_left + 1) = (r, s')"
            by (simp add: Let_def b_def)
          have "cache_step s2 s'"
            using "1.IH" [OF bl rd [symmetric] \<open>r1 = Some k\<close> b_def NotInBlock
                nb [symmetric] Some rec] .
          with st2 show ?thesis by (rule cache_step_trans)
        qed
      qed
    qed
  qed
qed

lemma find_loop_step:
  "find_loop s part path path_pos cpos blocks_left = (r, s') \<Longrightarrow> cache_step s s'"
proof (induction s part path path_pos cpos blocks_left arbitrary: r s' rule: find_loop.induct)
  case (1 s part path path_pos cpos blocks_left)
  obtain fname name_pos where c: "canonicalize_fname (drop path_pos path) = (fname, name_pos)"
    by (cases "canonicalize_fname (drop path_pos path)")
  define bl1 where "bl1 = (if cluster_no cpos \<noteq> 0 then 0xffffffff else blocks_left)"
  obtain dr s1 where d: "dir_blocks s part fname (name_pos \<ge> 0) cpos bl1 = (dr, s1)"
    by (cases "dir_blocks s part fname (name_pos \<ge> 0) cpos bl1")
  have st1: "cache_step s s1" using d by (rule dir_blocks_step)
  note eq = "1.prems" [unfolded find_loop.simps [of s part path path_pos cpos blocks_left] c
      prod.case Let_def bl1_def [symmetric] d]
  show ?case
  proof (cases dr)
    case (DirDescend cpos1)
    show ?thesis
    proof (cases "name_pos \<ge> 0 \<and> 0 < name_pos \<and> path_pos + nat name_pos < length path")
      case True
      with eq DirDescend have
        rec: "find_loop s1 part path (path_pos + nat name_pos) cpos1 0xffffffff = (r, s')"
        by simp
      have "cache_step s1 s'"
        using "1.IH"(1) [OF c [symmetric] refl bl1_def d [symmetric] DirDescend True rec] .
      with st1 show ?thesis by (rule cache_step_trans)
    next
      case False
      with eq DirDescend st1 show ?thesis by auto
    qed
  next
    case (DirBlocksDone cpos1)
    show ?thesis
    proof (cases "name_pos \<ge> 0 \<and> 0 < name_pos \<and> path_pos + nat name_pos < length path")
      case True
      with eq DirBlocksDone have
        rec: "find_loop s1 part path (path_pos + nat name_pos) cpos1 0 = (r, s')"
        by simp
      have "cache_step s1 s'"
        using "1.IH"(2) [OF c [symmetric] refl bl1_def d [symmetric] DirBlocksDone True rec] .
      with st1 show ?thesis by (rule cache_step_trans)
    next
      case False
      with eq DirBlocksDone st1 show ?thesis by auto
    qed
  qed (use eq st1 in auto)
qed

lemma find_file_step:
  "find_file s pno path = (r, s') \<Longrightarrow> cache_step s s'"
  unfolding find_file_def Let_def
  by (auto split: if_splits res.splits prod.splits dest: find_loop_step)

lemma fstat_impl_step:
  "fstat_impl s finfo = (r, s') \<Longrightarrow> cache_step s s'"
  unfolding fstat_impl_def
  by (auto split: if_splits option.splits prod.splits dest: read_block_step [rotated])

lemma stat_impl_step:
  "stat_impl s path = (r, s') \<Longrightarrow> cache_step s s'"
  unfolding stat_impl_def
  by (auto split: if_splits res.splits prod.splits
      dest!: find_file_step fstat_impl_step intro: cache_step_trans)

lemma read_head_step:
  "read_head s part f cpos nbyte = (r, s') \<Longrightarrow> cache_step s s'"
proof -
  assume a: "read_head s part f cpos nbyte = (r, s')"
  obtain r1 s1 where rd: "read_block s (cluster_pos_blk_no cpos) MFAT_CACHE_DATA = (r1, s1)"
    by (cases "read_block s (cluster_pos_blk_no cpos) MFAT_CACHE_DATA")
  have st1: "cache_step s s1" using read_block_step [OF _ rd] by simp
  obtain r2 s2 where ad: "cluster_pos_advance s1 cpos part = (r2, s2)"
    by (cases "cluster_pos_advance s1 cpos part")
  have st2: "cache_step s s2"
    using st1 cluster_pos_advance_step [OF ad] by (rule cache_step_trans)
  from a rd ad st1 st2 show ?thesis
    by (auto simp: read_head_def Let_def split: if_splits option.splits)
qed

lemma read_body_step:
  "read_body s part cpos nbyte bytes_read out = (r, s') \<Longrightarrow> cache_step s s'"
proof (induction s part cpos nbyte bytes_read out arbitrary: r s' rule: read_body.induct)
  case (1 s part cpos nbyte bytes_read out)
  note eq = "1.prems" [unfolded read_body.simps [of s part cpos nbyte bytes_read out]]
  show ?case
  proof (cases "nbyte - bytes_read \<ge> 512 \<and> \<not> is_eoc (cluster_no cpos)")
    case False
    with eq show ?thesis by (auto split: if_splits)
  next
    case True
    show ?thesis
    proof (cases "dev_read s (cluster_pos_blk_no cpos)")
      case None
      with eq True show ?thesis by simp
    next
      case (Some d)
      obtain r1 s1 where ad: "cluster_pos_advance s cpos part = (r1, s1)"
        by (cases "cluster_pos_advance s cpos part")
      have st1: "cache_step s s1" using ad by (rule cluster_pos_advance_step)
      show ?thesis
      proof (cases r1)
        case None
        with eq True Some ad st1 show ?thesis by simp
      next
        case (Some cpos1)
        with eq True \<open>dev_read s (cluster_pos_blk_no cpos) = Some d\<close> ad have
          rec: "read_body s1 part cpos1 nbyte (bytes_read + 512) (out @ d) = (r, s')" by simp
        from True have t1: "512 \<le> nbyte - bytes_read" and t2: "\<not> is_eoc (cluster_no cpos)"
          by simp_all
        have "cache_step s1 s'"
          using "1.IH" [OF t1 t2 \<open>dev_read s (cluster_pos_blk_no cpos) = Some d\<close>
              ad [symmetric] Some rec] .
        with st1 show ?thesis by (rule cache_step_trans)
      qed
    qed
  qed
qed

lemma read_tail_step:
  "read_tail s cpos nbyte bytes_read out = (r, s') \<Longrightarrow> cache_step s s'"
  unfolding read_tail_def Let_def
  by (auto split: if_splits option.splits prod.splits dest: read_block_step [rotated])

lemma lseek_skip_step:
  "lseek_skip s part target_offset bytes_per_cluster cur_cluster cluster_offset = (r, s')
     \<Longrightarrow> cache_step s s'"
proof (induction s part target_offset bytes_per_cluster cur_cluster cluster_offset
    arbitrary: r s' rule: lseek_skip.induct)
  case (1 s part target_offset bytes_per_cluster cur_cluster cluster_offset)
  note eq = "1.prems" [unfolded lseek_skip.simps
      [of s part target_offset bytes_per_cluster cur_cluster cluster_offset]]
  show ?case
  proof (cases "(bytes_per_cluster \<noteq> 0 \<and> target_offset - cluster_offset \<ge> bytes_per_cluster)
      \<and> \<not> is_eoc cur_cluster")
    case False
    with eq show ?thesis by (auto split: if_splits)
  next
    case True
    obtain r1 s1 where nc: "next_cluster s part cur_cluster = (r1, s1)"
      by (cases "next_cluster s part cur_cluster")
    have st1: "cache_step s s1" using nc by (rule next_cluster_step)
    show ?thesis
    proof (cases r1)
      case None
      with eq True nc st1 show ?thesis by simp
    next
      case (Some c)
      with eq True nc have
        rec: "lseek_skip s1 part target_offset bytes_per_cluster c
                (cluster_offset + bytes_per_cluster) = (r, s')" by simp
      from True have t1: "bytes_per_cluster \<noteq> 0 \<and> bytes_per_cluster \<le> target_offset - cluster_offset"
        and t2: "\<not> is_eoc cur_cluster" by simp_all
      have "cache_step s1 s'" using "1.IH" [OF t1 t2 nc [symmetric] Some rec] .
      with st1 show ?thesis by (rule cache_step_trans)
    qed
  qed
qed

text \<open>A change of the context outside its caches, its callbacks and its medium.\<close>

lemma cache_pres_same:
  assumes "caches s' = caches s" "read_fun s' = read_fun s" "write_fun s' = write_fun s"
    "custom s' = custom s"
  shows "cache_pres s s'"
proof -
  have "slots s' = slots s" using assms by (simp add: slots_def)
  moreover have "dev_read s' = dev_read s" using assms by (intro dev_read_cong) simp_all
  ultimately show ?thesis
    using assms
    by (simp add: cache_pres_def cache_ok_def ctx_cache_inv_def no_dirty_def coherent_def
        bufs512_def)
qed

lemma set_file_simps [simp]:
  "caches (set_file s fd f) = caches s"
  "files (set_file s fd f) = (files s)[fd := f]"
  "partitions (set_file s fd f) = partitions s"
  "custom (set_file s fd f) = custom s"
  "read_fun (set_file s fd f) = read_fun s"
  "write_fun (set_file s fd f) = write_fun s"
  "initialized (set_file s fd f) = initialized s"
  "active_partition (set_file s fd f) = active_partition s"
  by (simp_all add: set_file_def)

lemma set_partition_simps [simp]:
  "caches (set_partition s i p) = caches s"
  "files (set_partition s i p) = files s"
  "partitions (set_partition s i p) = (partitions s)[i := p]"
  "custom (set_partition s i p) = custom s"
  "read_fun (set_partition s i p) = read_fun s"
  "write_fun (set_partition s i p) = write_fun s"
  "initialized (set_partition s i p) = initialized s"
  "active_partition (set_partition s i p) = active_partition s"
  by (simp_all add: set_partition_def)

lemma cache_pres_set_file [simp]: "cache_pres s (set_file s fd f)"
  by (rule cache_pres_same) simp_all

lemma cache_pres_set_partition [simp]: "cache_pres s (set_partition s i p)"
  by (rule cache_pres_same) simp_all

lemma cache_pres_then_set_file: "cache_pres s s1 \<Longrightarrow> cache_pres s (set_file s1 fd f)"
  by (erule cache_pres_trans) simp

lemma cache_pres_then_set_partition:
  "cache_pres s s1 \<Longrightarrow> cache_pres s (set_partition s1 i p)"
  by (erule cache_pres_trans) simp

section \<open>Flushing the caches\<close>

lemma foldl_invariant:
  assumes "P s" and "\<And>s x. x \<in> set xs \<Longrightarrow> P s \<Longrightarrow> P (f s x)"
  shows "P (foldl f s xs)"
  using assms by (induction xs arbitrary: s) auto

lemma sync_block_frame:
  "files (sync_block s ji) = files s \<and> partitions (sync_block s ji) = partitions s \<and>
   initialized (sync_block s ji) = initialized s \<and>
   active_partition (sync_block s ji) = active_partition s \<and>
   read_fun (sync_block s ji) = read_fun s \<and> write_fun (sync_block s ji) = write_fun s \<and>
   length (caches (sync_block s ji)) = length (caches s) \<and>
   (\<forall>j. length (block (caches (sync_block s ji) ! j)) = length (block (caches s ! j)))"
proof -
  have "caches s1 = caches s \<Longrightarrow>
      length (block (caches (set_block s1 j i cb) ! j')) = length (block (caches s ! j'))"
    for s1 j i cb j'
    by (simp add: caches_set_block nth_upd_if)
  moreover have "length (caches (set_block s1 j i cb)) = length (caches s1)" for s1 j i cb
    by (simp add: caches_set_block)
  ultimately show ?thesis
    using dev_write_frame [of s]
    by (auto simp: sync_block_def Let_def split: option.splits)
qed

lemma cache_inv_mark_valid:
  assumes "cache_inv c" and "state (block c ! i) \<noteq> MFAT_INVALID"
  shows "cache_inv (c\<lparr>block := (block c)[i := (block c ! i)\<lparr>state := MFAT_VALID\<rparr>]\<rparr>)"
  using assms unfolding cache_inv_def by (auto simp: nth_upd_if)

lemma sync_block_inv:
  assumes inv: "ctx_cache_inv s" and j: "j < MFAT_NUM_CACHES"
  shows "ctx_cache_inv (sync_block s (j, i))"
proof (cases "state (get_block s j i) = MFAT_DIRTY")
  case False
  with inv show ?thesis by (simp add: sync_block_def)
next
  case True
  define s1 where
    "s1 = (case dev_write s (blk_no (get_block s j i)) (buf (get_block s j i)) of
             None \<Rightarrow> s | Some s' \<Rightarrow> s')"
  have c1: "caches s1 = caches s"
    using dev_write_frame [of s] by (auto simp: s1_def split: option.splits)
  then have inv1: "ctx_cache_inv s1" using inv by (simp add: ctx_cache_inv_def)
  have "cache_inv (caches s1 ! j)" using inv1 j by (simp add: ctx_cache_inv_def)
  moreover have "state (block (caches s1 ! j) ! i) \<noteq> MFAT_INVALID"
    using True c1 by (simp add: get_block_def)
  ultimately have "cache_inv ((caches s1 ! j)\<lparr>block := (block (caches s1 ! j))
      [i := (block (caches s1 ! j) ! i)\<lparr>state := MFAT_VALID\<rparr>]\<rparr>)"
    by (rule cache_inv_mark_valid)
  with inv1 have "ctx_cache_inv (set_block s1 j i ((get_block s j i)\<lparr>state := MFAT_VALID\<rparr>))"
    unfolding set_block_def get_block_def c1 [symmetric]
    by (intro ctx_cache_inv_set_cache)
  with True show ?thesis by (simp add: sync_block_def Let_def s1_def)
qed

lemma sync_block_clean:
  assumes "no_dirty s" and "j < length (caches s)" and "i < length (block (caches s ! j))"
  shows "sync_block s (j, i) = s"
proof -
  have "get_block s j i \<in> slots s"
    using assms(2,3) unfolding slots_def get_block_def
    by (auto intro!: bexI [of _ "caches s ! j"])
  with assms(1) show ?thesis by (simp add: sync_block_def no_dirty_def)
qed

lemma sync_impl_step: "cache_step s (sync_impl s)"
proof -
  define xs where "xs = concat (map (\<lambda>j. map (\<lambda>i. (j, i)) [0..<length (block (caches s ! j))])
          [0..<MFAT_NUM_CACHES])"
  define P where "P = (\<lambda>s'. files s' = files s \<and> partitions s' = partitions s \<and>
      initialized s' = initialized s \<and> active_partition s' = active_partition s \<and>
      read_fun s' = read_fun s \<and> write_fun s' = write_fun s \<and>
      length (caches s') = length (caches s) \<and>
      (\<forall>j. length (block (caches s' ! j)) = length (block (caches s ! j))) \<and>
      (ctx_cache_inv s \<longrightarrow> ctx_cache_inv s') \<and> (cache_ok s \<longrightarrow> s' = s))"
  have xs: "j < MFAT_NUM_CACHES \<and> i < length (block (caches s ! j))" if "(j, i) \<in> set xs" for j i
    using that by (auto simp: xs_def)
  have "P (foldl sync_block s xs)"
  proof (rule foldl_invariant)
    show "P s" by (simp add: P_def)
  next
    fix s' x
    assume x: "x \<in> set xs" and p: "P s'"
    obtain j i where ji: "x = (j, i)" by (cases x)
    from xs x ji have r: "j < MFAT_NUM_CACHES" "i < length (block (caches s ! j))" by auto
    have "ctx_cache_inv (sync_block s' x)" if "ctx_cache_inv s"
      using that p r unfolding ji by (intro sync_block_inv) (simp_all add: P_def)
    moreover have "sync_block s' x = s" if ok: "cache_ok s"
    proof -
      from ok p have e: "s' = s" by (simp add: P_def)
      from ok have "no_dirty s" "length (caches s) = MFAT_NUM_CACHES"
        by (simp_all add: cache_ok_def ctx_cache_inv_def)
      with r show ?thesis unfolding e ji by (intro sync_block_clean) simp_all
    qed
    ultimately show "P (sync_block s' x)"
      using p sync_block_frame [of s' x] by (simp add: P_def)
  qed
  then show ?thesis
    unfolding sync_impl_def xs_def [symmetric]
    by (auto simp: P_def cache_step_def cache_pres_def)
qed

section \<open>The operations on files\<close>

lemma open_impl_pres: "open_impl s path oflg = (r, s') \<Longrightarrow> cache_pres s s'"
  unfolding open_impl_def Let_def
  by (auto split: if_splits res.splits prod.splits
      dest!: find_file_step cache_step_pres intro!: cache_pres_then_set_file)

lemma close_impl_pres: "close_impl s fd = (r, s') \<Longrightarrow> cache_pres s s'"
  unfolding close_impl_def Let_def
  using sync_impl_step [of s]
  by (auto split: if_splits intro!: cache_pres_then_set_file dest: cache_step_pres)

lemma write_impl_same: "write_impl s fd wbuf nbyte = (Fail, s)"
  by (simp add: write_impl_def)

lemma read_phases_step:
  assumes "read_head s part f cpos nbyte = (r1, s1)"
  shows "cache_step s s1"
    and "r1 = Some (cpos1, br1, out1) \<Longrightarrow> read_body s1 part cpos1 nbyte br1 out1 = (r2, s2)
           \<Longrightarrow> cache_step s s2"
    and "r1 = Some (cpos1, br1, out1) \<Longrightarrow> read_body s1 part cpos1 nbyte br1 out1 = (r2, s2)
           \<Longrightarrow> r2 = Some (cpos2, br2, out2) \<Longrightarrow> read_tail s2 cpos2 nbyte br2 out2 = (r3, s3)
           \<Longrightarrow> cache_step s s3"
  using assms by (blast intro: read_head_step read_body_step read_tail_step cache_step_trans)+

text \<open>
  How \<^verbatim>\<open>_mfat_read_impl\<close> ends: with \<^verbatim>\<open>-1\<close> and the files untouched, with a trap, or
  with the three phases done and the file descriptor updated once, at the end.
\<close>

lemma read_impl_result:
  assumes "read_impl s fd nbyte0 = (r, s')"
  shows "(r = Fail \<and> cache_step s s') \<or> (r = Trap \<and> s' = s) \<or>
         (\<exists>br out c s3. r = Ok (uint br, out) \<and> cache_step s s3 \<and>
            s' = set_file s3 fd ((files s ! fd)\<lparr>current_cluster := c,
                                   offset := offset (files s ! fd) + br\<rparr>))"
proof -
  define f where "f = files s ! fd"
  define nbyte where
    "nbyte = (if nbyte0 > fsize (info f) - offset f then fsize (info f) - offset f else nbyte0)"
  define part where "part = partitions s ! part_no (info f)"
  note eq = assms [unfolded read_impl_def Let_def, folded f_def, folded nbyte_def part_def]
  have same: "s = set_file s fd (f\<lparr>current_cluster := current_cluster f, offset := offset f + 0\<rparr>)"
    by (simp add: set_file_def f_def)
  show ?thesis
  proof (cases "(oflag f) AND MFAT_O_RDONLY = 0")
    case True
    with eq show ?thesis by simp
  next
    case perm: False
    show ?thesis
    proof (cases "nbyte = 0")
      case True
      with eq perm have "r = Ok (uint (0 :: u32), [])" "s' = s" by simp_all
      moreover have "cache_step s s" by simp
      ultimately show ?thesis using same unfolding f_def by blast
    next
      case nz: False
      show ?thesis
      proof (cases "cluster_pos_init_from_file part f")
        case Trap
        with eq perm nz show ?thesis by simp
      next
        case Fail
        with eq perm nz show ?thesis by simp
      next
        case (Ok cpos)
        obtain r1 s1 where h: "read_head s part f cpos nbyte = (r1, s1)"
          by (cases "read_head s part f cpos nbyte")
        show ?thesis
        proof (cases r1)
          case None
          with eq perm nz Ok h have "r = Fail" "s' = s1" by simp_all
          with read_phases_step(1) [OF h] show ?thesis by simp
        next
          case (Some x1)
          obtain cpos1 br1 out1 where x1: "x1 = (cpos1, br1, out1)" by (cases x1)
          obtain r2 s2 where b: "read_body s1 part cpos1 nbyte br1 out1 = (r2, s2)"
            by (cases "read_body s1 part cpos1 nbyte br1 out1")
          note r1 = Some [unfolded x1]
          show ?thesis
          proof (cases r2)
            case None
            with eq perm nz Ok h r1 b have "r = Fail" "s' = s2" by simp_all
            with read_phases_step(2) [OF h r1 b] show ?thesis by simp
          next
            case (Some x2)
            obtain cpos2 br2 out2 where x2: "x2 = (cpos2, br2, out2)" by (cases x2)
            obtain r3 s3 where t: "read_tail s2 cpos2 nbyte br2 out2 = (r3, s3)"
              by (cases "read_tail s2 cpos2 nbyte br2 out2")
            note r2 = Some [unfolded x2]
            note st3 = read_phases_step(3) [OF h r1 b r2 t]
            show ?thesis
            proof (cases r3)
              case None
              with eq perm nz Ok h r1 b r2 t have "r = Fail" "s' = s3" by simp_all
              with st3 show ?thesis by simp
            next
              case (Some x3)
              obtain br out where x3: "x3 = (br, out)" by (cases x3)
              from st3 have fs: "files s3 = files s" by (simp add: cache_step_def)
              from eq perm nz Ok h r1 b r2 t Some x3 fs have
                "r = Ok (uint br, out)"
                "s' = set_file s3 fd (f\<lparr>current_cluster := cluster_no cpos2,
                                         offset := offset f + br\<rparr>)"
                by (simp_all add: f_def)
              with st3 show ?thesis unfolding f_def by blast
            qed
          qed
        qed
      qed
    qed
  qed
qed

lemma read_impl_pres: "read_impl s fd nbyte0 = (r, s') \<Longrightarrow> cache_pres s s'"
  by (drule read_impl_result)
    (auto dest!: cache_step_pres intro: cache_pres_then_set_file)

lemma lseek_impl_result:
  assumes "lseek_impl s fd offs whence = (r, s')"
  shows "(r = Fail \<and> cache_step s s') \<or> (r = Trap \<and> s' = s) \<or>
         (\<exists>t c s1. r = Ok (uint t) \<and> cache_step s s1 \<and>
            s' = set_file s1 fd ((files s ! fd)\<lparr>offset := t, current_cluster := c\<rparr>))"
proof -
  define f where "f = files s ! fd"
  define t64 where
    "t64 = (if whence = MFAT_SEEK_SET then Some (sint offs)
            else if whence = MFAT_SEEK_END then Some (uint (fsize (info f)) + sint offs)
            else if whence = MFAT_SEEK_CUR then Some (uint (offset f) + sint offs)
            else None)"
  define part where "part = partitions s ! part_no (info f)"
  define bytes_per_cluster where "bytes_per_cluster = blocks_per_cluster part * 512"
  define cluster_offset where "cluster_offset = offset f - (offset f mod bytes_per_cluster)"
  note eq = assms [unfolded lseek_impl_def Let_def, folded f_def, folded t64_def part_def,
      folded bytes_per_cluster_def, folded cluster_offset_def]
  show ?thesis
  proof (cases t64)
    case None
    with eq show ?thesis by simp
  next
    case (Some target_offset_64)
    define target_offset where "target_offset = (word_of_int target_offset_64 :: u32)"
    define start where
      "start = (if target_offset < cluster_offset then (first_cluster (info f), 0)
                else (current_cluster f, cluster_offset))"
    show ?thesis
    proof (cases "target_offset_64 \<ge> 2 ^ 63 \<or> target_offset_64 < 0
        \<or> target_offset_64 > uint (fsize (info f)) \<or> bytes_per_cluster = 0")
      case True
      with eq Some show ?thesis by (auto split: if_splits)
    next
      case False
      obtain r1 s1 where sk: "lseek_skip s part target_offset bytes_per_cluster (fst start)
          (snd start) = (r1, s1)"
        by (cases "lseek_skip s part target_offset bytes_per_cluster (fst start) (snd start)")
      have st: "cache_step s s1" using sk by (rule lseek_skip_step)
      then have fs: "files s1 = files s" by (simp add: cache_step_def)
      note t = \<open>t64 = Some target_offset_64\<close>
      show ?thesis
      proof (cases r1)
        case None
        with eq t False sk have "r = Fail" "s' = s1"
          by (simp_all add: target_offset_def start_def)
        with st show ?thesis by simp
      next
        case (Some c)
        with eq t False sk fs have "r = Ok (uint target_offset)"
          "s' = set_file s1 fd ((files s ! fd)\<lparr>offset := target_offset, current_cluster := c\<rparr>)"
          by (simp_all add: target_offset_def start_def)
        with st show ?thesis by blast
      qed
    qed
  qed
qed

lemma lseek_impl_pres: "lseek_impl s fd offs whence = (r, s') \<Longrightarrow> cache_pres s s'"
  by (drule lseek_impl_result)
    (auto dest!: cache_step_pres intro: cache_pres_then_set_file)

section \<open>Decoding the partition tables\<close>

lemma decode_step_refl [simp]: "decode_step s s"
  by (simp add: decode_step_def)

lemma decode_step_trans: "decode_step s s1 \<Longrightarrow> decode_step s1 s2 \<Longrightarrow> decode_step s s2"
  by (auto simp: decode_step_def intro: cache_pres_trans)

lemma cache_step_decode: "cache_step s s' \<Longrightarrow> decode_step s s'"
  by (simp add: cache_step_def decode_step_def)

lemma decode_step_set_partition [simp]: "decode_step s (set_partition s i p)"
  by (simp add: decode_step_def)

lemma decode_step_then_set_partition:
  "decode_step s s1 \<Longrightarrow> decode_step s (set_partition s1 i p)"
  by (erule decode_step_trans) simp

lemma read_block_decode:
  "read_block s b MFAT_CACHE_DATA = (r, s') \<Longrightarrow> decode_step s s'"
  by (rule cache_step_decode) (rule read_block_step [rotated], assumption, simp)

lemma gpt_entries_step:
  "gpt_entries s b entries_block num_entries entry_size entry_offs i = (r, s')
     \<Longrightarrow> decode_step s s'"
proof (induction n \<equiv> "MFAT_NUM_PARTITIONS - i" arbitrary: s b entries_block entry_offs i r s')
  case 0
  then show ?case by (simp add: gpt_entries.simps [of s b entries_block num_entries entry_size entry_offs i])
next
  case (Suc n)
  note eq = Suc.prems [unfolded gpt_entries.simps
      [of s b entries_block num_entries entry_size entry_offs i]]
  show ?case
  proof (cases "of_nat i < num_entries \<and> i < MFAT_NUM_PARTITIONS")
    case False
    with eq show ?thesis by auto
  next
    case True
    define nx where "nx = (if entry_offs mod 512 = 0 then
                 (case read_block s entries_block MFAT_CACHE_DATA of
                    (None, s1) \<Rightarrow> (None, s1)
                  | (Some k, s1) \<Rightarrow>
                      (Some (buf (get_block s1 MFAT_CACHE_DATA k), entries_block + 1, 0), s1))
               else (Some (b, entries_block, entry_offs), s))"
    obtain x s1 where nx1: "nx = (x, s1)" by (cases nx)
    have st1: "decode_step s s1"
      using nx1 unfolding nx_def
      by (auto split: if_splits prod.splits option.splits dest: read_block_decode)
    note eq1 = eq [folded nx_def, unfolded nx1]
    show ?thesis
    proof (cases x)
      case None
      with eq1 True st1 show ?thesis by simp
    next
      case (Some y)
      obtain b1 entries_block1 entry_offs1 where y: "y = (b1, entries_block1, entry_offs1)"
        by (cases y)
      show ?thesis
      proof (cases "unat entry_offs1 + 49 > 512")
        case tr: True
        with eq1 True Some y st1 show ?thesis by simp
      next
        case False
        from eq1 True Some y False obtain part2 where
          rec: "gpt_entries (set_partition s1 i part2) b1 entries_block1 num_entries entry_size
                      (entry_offs1 + entry_size) (Suc i) = (r, s')"
          by (auto simp add: Let_def split: if_splits)
        have n: "n = MFAT_NUM_PARTITIONS - Suc i" using Suc.hyps(2) by simp
        have "decode_step (set_partition s1 i part2) s'"
          using Suc.hyps(1) [OF n rec] .
        with decode_step_then_set_partition [OF st1] show ?thesis by (rule decode_step_trans)
      qed
    qed
  qed
qed

lemma decode_gpt_step: "decode_gpt s = (r, s') \<Longrightarrow> decode_step s s'"
  unfolding decode_gpt_def Let_def
  by (auto split: prod.splits option.splits if_splits
      dest!: read_block_decode gpt_entries_step intro: decode_step_trans)

lemma mbr_entry_step: "decode_step s (fst (mbr_entry b (s, fl) i))"
  by (simp add: mbr_entry_def Let_def)

lemma decode_mbr_step: "decode_mbr s = (r, s') \<Longrightarrow> decode_step s s'"
proof -
  assume a: "decode_mbr s = (r, s')"
  obtain r1 s1 where rd: "read_block s 0 MFAT_CACHE_DATA = (r1, s1)"
    by (cases "read_block s 0 MFAT_CACHE_DATA")
  have st1: "decode_step s s1" using rd by (rule read_block_decode)
  have fl: "decode_step s1 (fst (foldl (mbr_entry b) (s1, False) xs))" for b xs
  proof (rule foldl_invariant [where P = "\<lambda>sf. decode_step s1 (fst sf)"])
    show "decode_step s1 (fst (s1, False))" by simp
  next
    fix sf :: "mfat_ctx \<times> bool" and x
    assume "decode_step s1 (fst sf)"
    moreover have "decode_step (fst sf) (fst (mbr_entry b sf x))"
      using mbr_entry_step [of "fst sf" b "snd sf" x] by simp
    ultimately show "decode_step s1 (fst (mbr_entry b sf x))" by (rule decode_step_trans)
  qed
  from a rd have "s' = s1 \<or> (\<exists>b xs. s' = fst (foldl (mbr_entry b) (s1, False) xs))"
    unfolding decode_mbr_def Let_def
    by (auto split: option.splits if_splits prod.splits) (metis fst_conv)+
  with st1 fl show ?thesis by (auto intro: decode_step_trans)
qed

lemma decode_tableless_step:
  "length (partitions s) = MFAT_NUM_PARTITIONS \<Longrightarrow> decode_step s (decode_tableless s)"
proof -
  assume len: "length (partitions s) = MFAT_NUM_PARTITIONS"
  have "cache_pres s (s\<lparr>partitions := replicate MFAT_NUM_PARTITIONS zero_partition\<rparr>)"
    by (rule cache_pres_same) simp_all
  with len have "decode_step s (s\<lparr>partitions := replicate MFAT_NUM_PARTITIONS zero_partition\<rparr>)"
    by (simp add: decode_step_def)
  then show ?thesis
    unfolding decode_tableless_def by (rule decode_step_then_set_partition)
qed

lemma decode_bpb_step: "decode_bpb s i = (r, s') \<Longrightarrow> decode_step s s'"
  unfolding decode_bpb_def Let_def
  by (auto split: prod.splits option.splits if_splits
      dest!: read_block_decode intro: decode_step_then_set_partition)

lemma decode_bpbs_step: "decode_bpbs s xs = (r, s') \<Longrightarrow> decode_step s s'"
proof (induction xs arbitrary: s)
  case Nil
  then show ?case by simp
next
  case (Cons i xs)
  obtain r1 s1 where d: "decode_bpb s i = (r1, s1)" by (cases "decode_bpb s i")
  have st: "decode_step s s1" using d by (rule decode_bpb_step)
  show ?case
  proof (cases r1)
    case (Ok u)
    with Cons.prems d have "decode_bpbs s1 xs = (r, s')" by simp
    from st Cons.IH [OF this] show ?thesis by (rule decode_step_trans)
  next
    case Fail
    with Cons.prems d st show ?thesis by simp
  next
    case Trap
    with Cons.prems d st show ?thesis by simp
  qed
qed

lemma decode_partition_tables_step:
  assumes "decode_partition_tables s = (r, s')"
    and len: "length (partitions s) = MFAT_NUM_PARTITIONS"
  shows "decode_step s s'"
proof -
  obtain r1 s1 where g: "decode_gpt s = (r1, s1)" by (cases "decode_gpt s")
  have st1: "decode_step s s1" using g by (rule decode_gpt_step)
  obtain r2 s2 where m: "decode_mbr s1 = (r2, s2)" by (cases "decode_mbr s1")
  have st2: "decode_step s1 s2" using m by (rule decode_mbr_step)
  have st12: "decode_step s s2" using st1 st2 by (rule decode_step_trans)
  have len2: "length (partitions s2) = MFAT_NUM_PARTITIONS"
    using st12 len by (simp add: decode_step_def)
  have st3: "decode_step s (decode_tableless s2)"
    using st12 decode_tableless_step [OF len2] by (rule decode_step_trans)
  from assms(1) g m consider
      "s' = s1" | "decode_bpbs s1 [0..<MFAT_NUM_PARTITIONS] = (r, s')" | "s' = s2"
    | "decode_bpbs s2 [0..<MFAT_NUM_PARTITIONS] = (r, s')"
    | "decode_bpbs (decode_tableless s2) [0..<MFAT_NUM_PARTITIONS] = (r, s')"
    unfolding decode_partition_tables_def
    by (cases r1; cases r2) auto
  then show ?thesis
  proof cases
    case 1 with st1 show ?thesis by simp
  next
    case 2 from st1 decode_bpbs_step [OF 2] show ?thesis by (rule decode_step_trans)
  next
    case 3 with st12 show ?thesis by simp
  next
    case 4 from st12 decode_bpbs_step [OF 4] show ?thesis by (rule decode_step_trans)
  next
    case 5 from st3 decode_bpbs_step [OF 5] show ?thesis by (rule decode_step_trans)
  qed
qed

section \<open>The partition that mount selects\<close>

lemma first_index_Some:
  "first_index P xs = Some i \<Longrightarrow> i < length xs \<and> P (xs ! i) \<and> (\<forall>j<i. \<not> P (xs ! j))"
proof (induction xs arbitrary: i)
  case Nil
  then show ?case by simp
next
  case (Cons x xs)
  show ?case
  proof (cases "P x")
    case True
    with Cons.prems show ?thesis by simp
  next
    case False
    with Cons.prems obtain k where k: "first_index P xs = Some k" and i: "i = Suc k" by auto
    from Cons.IH [OF k] False i show ?thesis by (auto simp: less_Suc_eq_0_disj)
  qed
qed



text \<open>
  The selection loop from index \<open>i\<close> on. Once a bootable partition has been found nothing
  changes any more; before that, the first bootable partition of a known type wins, then
  the partition that is active already, then the first partition of a known type.
\<close>

lemma pick_partition_booted:
  "0 \<le> fb \<Longrightarrow> 0 \<le> ap \<Longrightarrow> pick_partition ps i fb ap = ap"
  by (induction ps arbitrary: i) auto

lemma pick_partition_spec:
  "fb < 0 \<Longrightarrow>
   pick_partition ps i fb ap =
     (case first_index (\<lambda>p. ptype p \<noteq> MFAT_TYPE_UNKNOWN \<and> boot p) ps of
        Some k \<Rightarrow> int (i + k)
      | None \<Rightarrow>
          (if 0 \<le> ap then ap
           else (case first_index (\<lambda>p. ptype p \<noteq> MFAT_TYPE_UNKNOWN) ps of
                   Some k \<Rightarrow> int (i + k) | None \<Rightarrow> ap)))"
proof (induction ps arbitrary: i ap)
  case Nil
  then show ?case by simp
next
  case (Cons p ps)
  show ?case
  proof (cases "ptype p \<noteq> MFAT_TYPE_UNKNOWN")
    case False
    with Cons.IH [OF Cons.prems, of "Suc i" ap] show ?thesis
      by (auto split: option.splits)
  next
    case known: True
    show ?thesis
    proof (cases "boot p")
      case True
      with known Cons.prems show ?thesis by (simp add: pick_partition_booted)
    next
      case False
      show ?thesis
      proof (cases "ap < 0")
        case True
        with known False Cons.prems Cons.IH [OF Cons.prems, of "Suc i" "int i"] show ?thesis
          by (auto split: option.splits)
      next
        case nb: False
        with known False Cons.prems Cons.IH [OF Cons.prems, of "Suc i" ap] show ?thesis
          by (auto split: option.splits)
      qed
    qed
  qed
qed

text \<open>What the decoding of a BPB leaves in the partition table.\<close>

lemma read_block_partitions:
  "read_block s b t = (r, s') \<Longrightarrow> t < MFAT_NUM_CACHES \<Longrightarrow> partitions s' = partitions s"
  using read_block_step [of t s b r s'] by (auto simp: cache_step_def)

lemma ucast8_geom: "unat (ucast (x :: u8) :: u32) < 256"
  using unat_ucast8 [of x] u8_lt [of x] by simp

lemma decode_bpb_part:
  assumes "decode_bpb s i = (Ok u, s')" and "i < length (partitions s)"
  shows "ptype (partitions s' ! i) \<noteq> MFAT_TYPE_FAT_UNDECIDED \<and>
         (ptype (partitions s' ! i) \<noteq> MFAT_TYPE_UNKNOWN \<longrightarrow> geom_ok (partitions s' ! i)) \<and>
         (\<forall>j. j \<noteq> i \<longrightarrow> partitions s' ! j = partitions s ! j)"
proof (cases "ptype (partitions s ! i) = MFAT_TYPE_UNKNOWN")
  case True
  with assms show ?thesis by (simp add: decode_bpb_def)
next
  case False
  obtain r1 s1 where rd: "read_block s (first_block (partitions s ! i)) MFAT_CACHE_DATA = (r1, s1)"
    by (cases "read_block s (first_block (partitions s ! i)) MFAT_CACHE_DATA")
  have ps: "partitions s1 = partitions s" using read_block_partitions [OF rd] by simp
  from assms(1) False rd obtain k where r1: "r1 = Some k"
    by (cases r1) (auto simp: decode_bpb_def)
  from assms(1) False rd r1 obtain p where
    s': "s' = set_partition s1 i p" and
    p: "ptype p = MFAT_TYPE_UNKNOWN \<or>
        ((ptype p = MFAT_TYPE_FAT16 \<or> ptype p = MFAT_TYPE_FAT32) \<and>
         blocks_per_cluster p \<noteq> 0 \<and>
         blocks_per_cluster p = ucast (buf (get_block s1 MFAT_CACHE_DATA k) ! 13))"
    unfolding decode_bpb_def Let_def
    by (auto split: if_splits)
  have "geom_ok p" if "ptype p \<noteq> MFAT_TYPE_UNKNOWN"
    using that p ucast8_geom [of "buf (get_block s1 MFAT_CACHE_DATA k) ! 13"]
    by (auto simp: geom_ok_def unat_gt_0)
  with p s' ps assms(2) show ?thesis
    by (auto simp: set_partition_def)
qed

lemma decode_bpbs_part:
  assumes "decode_bpbs s xs = (Ok u, s')" and "\<forall>i\<in>set xs. i < length (partitions s)"
  shows "(\<forall>i\<in>set xs. part_decoded (partitions s' ! i)) \<and>
         (\<forall>j. j \<notin> set xs \<longrightarrow> partitions s' ! j = partitions s ! j)"
  using assms
proof (induction xs arbitrary: s)
  case Nil
  then show ?case by simp
next
  case (Cons i xs)
  obtain r1 s1 where d: "decode_bpb s i = (r1, s1)" by (cases "decode_bpb s i")
  with Cons.prems(1) obtain u1 where r1: "r1 = Ok u1" by (cases r1) auto
  with Cons.prems(1) d have rest: "decode_bpbs s1 xs = (Ok u, s')" by simp
  from Cons.prems(2) have i: "i < length (partitions s)" by simp
  note h = decode_bpb_part [OF d [unfolded r1] i]
  have len: "length (partitions s1) = length (partitions s)"
    using decode_bpb_step [OF d] by (simp add: decode_step_def)
  with Cons.prems(2) have "\<forall>i\<in>set xs. i < length (partitions s1)" by simp
  note ih = Cons.IH [OF rest this]
  have "part_decoded (partitions s' ! i)"
  proof (cases "i \<in> set xs")
    case True
    with ih show ?thesis by blast
  next
    case False
    with ih have "partitions s' ! i = partitions s1 ! i" by blast
    with h show ?thesis by (simp add: part_decoded_def)
  qed
  moreover have "partitions s' ! j = partitions s ! j" if "j \<notin> set (i # xs)" for j
    using that ih h by auto
  ultimately show ?case using ih by auto
qed

lemma cleared_ctx_simps [simp]:
  "length (partitions (cleared_ctx rfun wfun cst)) = MFAT_NUM_PARTITIONS"
  "files (cleared_ctx rfun wfun cst) = replicate MFAT_NUM_FDS zero_file"
  "initialized (cleared_ctx rfun wfun cst) = False"
  "active_partition (cleared_ctx rfun wfun cst) = - 1"
  "read_fun (cleared_ctx rfun wfun cst) = rfun"
  "write_fun (cleared_ctx rfun wfun cst) = wfun"
  "custom (cleared_ctx rfun wfun cst) = cst"
  by (simp_all add: cleared_ctx_def)

lemma decode_partition_tables_part:
  assumes "decode_partition_tables s = (Ok u, s')"
    and len: "length (partitions s) = MFAT_NUM_PARTITIONS"
  shows "\<forall>p\<in>set (partitions s'). part_decoded p"
proof -
  obtain r1 s1 where g: "decode_gpt s = (r1, s1)" by (cases "decode_gpt s")
  have st1: "decode_step s s1" using g by (rule decode_gpt_step)
  obtain r2 s2 where m: "decode_mbr s1 = (r2, s2)" by (cases "decode_mbr s1")
  have st2: "decode_step s1 s2" using m by (rule decode_mbr_step)
  have len1: "length (partitions s1) = MFAT_NUM_PARTITIONS"
    using st1 len by (simp add: decode_step_def)
  have len2: "length (partitions s2) = MFAT_NUM_PARTITIONS"
    using st2 len1 by (simp add: decode_step_def)
  have len3: "length (partitions (decode_tableless s2)) = MFAT_NUM_PARTITIONS"
    using decode_tableless_step [OF len2] len2 by (simp add: decode_step_def)
  from assms(1) g m obtain s0 where
    d: "decode_bpbs s0 [0..<MFAT_NUM_PARTITIONS] = (Ok u, s')" and
    l0: "length (partitions s0) = MFAT_NUM_PARTITIONS"
    unfolding decode_partition_tables_def
    using len1 len2 len3 by (cases r1; cases r2) auto
  have "\<forall>i\<in>set [0..<MFAT_NUM_PARTITIONS]. i < length (partitions s0)" using l0 by simp
  from decode_bpbs_part [OF d this]
  have all: "\<forall>i<MFAT_NUM_PARTITIONS. part_decoded (partitions s' ! i)" by simp
  have "length (partitions s') = MFAT_NUM_PARTITIONS"
    using decode_bpbs_step [OF d] l0 by (simp add: decode_step_def)
  with all show ?thesis by (auto simp: in_set_conv_nth)
qed


section \<open>The cache invariant under the operations of the library\<close>

lemma cleared_ctx_slots:
  "slots (cleared_ctx rfun wfun cst) = {zero_cached_block}"
  by (auto simp: slots_def cleared_ctx_def)

lemma cleared_ctx_cache_inv: "ctx_cache_inv (cleared_ctx rfun wfun cst)"
  by (auto simp: ctx_cache_inv_def cache_inv_def cleared_ctx_def zero_cached_block_def
      less_Suc_eq numeral_2_eq_2)

lemma cleared_ctx_cache_ok: "cache_ok (cleared_ctx rfun wfun cst)"
  by (simp add: cache_ok_def cleared_ctx_cache_inv no_dirty_def coherent_def bufs512_def
      cleared_ctx_slots zero_cached_block_def)

lemma mfat_mount_pres:
  assumes "mfat_mount s rd wr cst = (r, s')"
  shows "s' = s \<or> (\<exists>rfun wfun. cache_pres (cleared_ctx rfun wfun cst) s')"
proof (cases "rd = None \<or> wr = None")
  case True
  with assms show ?thesis by (auto simp: mfat_mount_def split: option.splits)
next
  case False
  then obtain rfun wfun where rw: "rd = Some rfun" "wr = Some wfun" by auto
  obtain r1 s1 where d: "decode_partition_tables (cleared_ctx rfun wfun cst) = (r1, s1)"
    by (cases "decode_partition_tables (cleared_ctx rfun wfun cst)")
  have "decode_step (cleared_ctx rfun wfun cst) s1"
    using d by (rule decode_partition_tables_step) simp
  then have p: "cache_pres (cleared_ctx rfun wfun cst) s1" by (simp add: decode_step_def)
  have same: "cache_pres s1 (s1\<lparr>active_partition := a\<rparr>)"
       "cache_pres s1 (s1\<lparr>active_partition := a, initialized := True\<rparr>)" for a
    by (rule cache_pres_same; simp)+
  from assms rw d have "s' = s1 \<or> (\<exists>a. s' = s1\<lparr>active_partition := a\<rparr>)
      \<or> (\<exists>a. s' = s1\<lparr>active_partition := a, initialized := True\<rparr>)"
    by (cases r1) (auto simp: mfat_mount_def Let_def split: if_splits)
  with p same have "cache_pres (cleared_ctx rfun wfun cst) s'"
    by (auto intro: cache_pres_trans)
  then show ?thesis by blast
qed

lemma mfat_mount_cache_inv:
  "ctx_cache_inv s \<Longrightarrow> ctx_cache_inv (snd (mfat_mount s rd wr cst))"
  using mfat_mount_pres [of s rd wr cst "fst (mfat_mount s rd wr cst)" "snd (mfat_mount s rd wr cst)"]
  by (auto simp: cache_pres_def cleared_ctx_cache_inv)

lemma mfat_unmount_pres: "cache_pres s (mfat_unmount s)"
proof -
  have "cache_pres (sync_impl s) ((sync_impl s)\<lparr>initialized := False\<rparr>)"
    by (rule cache_pres_same) simp_all
  with cache_step_pres [OF sync_impl_step [of s]] show ?thesis
    unfolding mfat_unmount_def by (rule cache_pres_trans)
qed

lemma mfat_select_partition_pres: "cache_pres s (snd (mfat_select_partition s p))"
proof -
  have "cache_pres s (s\<lparr>active_partition := p\<rparr>)" by (rule cache_pres_same) simp_all
  then show ?thesis by (simp add: mfat_select_partition_def)
qed

lemma mfat_sync_pres: "cache_pres s (mfat_sync s)"
  using cache_step_pres [OF sync_impl_step [of s]] by (simp add: mfat_sync_def)

lemma mfat_fstat_pres: "cache_pres s (snd (mfat_fstat s fd))"
proof (cases "mfat_fstat s fd")
  case (Pair r s')
  then have "s' = s \<or> (\<exists>fi. fstat_impl s fi = (r, s'))"
    by (auto simp: mfat_fstat_def split: if_splits option.splits)
  with Pair show ?thesis by (auto dest!: fstat_impl_step cache_step_pres)
qed

lemma mfat_stat_pres: "cache_pres s (snd (mfat_stat s path stat_given))"
proof (cases "mfat_stat s path stat_given")
  case (Pair r s')
  then have "s' = s \<or> (\<exists>p. stat_impl s p = (r, s'))"
    by (auto simp: mfat_stat_def split: if_splits option.splits)
  with Pair show ?thesis by (auto dest!: stat_impl_step cache_step_pres)
qed

lemma mfat_open_pres: "cache_pres s (snd (mfat_open s path oflg))"
proof (cases "mfat_open s path oflg")
  case (Pair r s')
  then have "s' = s \<or> (\<exists>p. open_impl s p oflg = (r, s'))"
    by (auto simp: mfat_open_def split: if_splits option.splits)
  with Pair show ?thesis by (auto dest!: open_impl_pres)
qed

lemma mfat_close_pres: "cache_pres s (snd (mfat_close s fd))"
proof (cases "mfat_close s fd")
  case (Pair r s')
  then have "s' = s \<or> (\<exists>k. close_impl s k = (r, s'))"
    by (auto simp: mfat_close_def split: if_splits option.splits)
  with Pair show ?thesis by (auto dest!: close_impl_pres)
qed

lemma mfat_read_pres: "cache_pres s (snd (mfat_read s fd nbyte))"
proof (cases "mfat_read s fd nbyte")
  case (Pair r s')
  then have "s' = s \<or> (\<exists>k. read_impl s k nbyte = (r, s'))"
    by (auto simp: mfat_read_def split: if_splits option.splits)
  with Pair show ?thesis by (auto dest!: read_impl_pres)
qed

lemma mfat_write_pres: "cache_pres s (snd (mfat_write s fd wbuf nbyte))"
  by (simp add: mfat_write_def write_impl_same split: option.splits)

lemma mfat_lseek_pres: "cache_pres s (snd (mfat_lseek s fd offs whence))"
proof (cases "mfat_lseek s fd offs whence")
  case (Pair r s')
  then have "s' = s \<or> (\<exists>k. lseek_impl s k offs whence = (r, s'))"
    by (auto simp: mfat_lseek_def split: if_splits option.splits)
  with Pair show ?thesis by (auto dest!: lseek_impl_pres)
qed

lemma cache_pres_inv: "cache_pres s s' \<Longrightarrow> ctx_cache_inv s \<Longrightarrow> ctx_cache_inv s'"
  by (simp add: cache_pres_def)

section \<open>The chain and the cluster cursor\<close>

lemma cache_pres_dev_read:
  "cache_pres s s' \<Longrightarrow> cache_ok s \<Longrightarrow> cache_ok s' \<and> dev_read s' = dev_read s"
  by (auto simp: cache_pres_def intro: dev_read_cong)

lemma cache_step_dev_read:
  "cache_step s s' \<Longrightarrow> cache_ok s \<Longrightarrow> cache_ok s' \<and> dev_read s' = dev_read s"
  by (auto dest: cache_step_pres cache_pres_dev_read)

lemma next_cluster_fat_next:
  assumes ok: "cache_ok s" and n: "next_cluster s part c = (r, s')"
  shows "r = fat_next (dev_read s) part c"
proof -
  obtain r1 s1 where rd: "read_block s (fat_block part c) MFAT_CACHE_FAT = (r1, s1)"
    by (cases "read_block s (fat_block part c) MFAT_CACHE_FAT")
  have t: "MFAT_CACHE_FAT < MFAT_NUM_CACHES" by simp
  note h = read_block_ok [OF ok t rd]
  show ?thesis
  proof (cases r1)
    case None
    with h n rd show ?thesis by (auto simp: next_cluster_def fat_next_def)
  next
    case (Some i)
    with h n rd show ?thesis by (auto simp: next_cluster_def fat_next_def Let_def)
  qed
qed

lemma chain_walk_add:
  "chain_walk rd part c (a + b) =
     (case chain_walk rd part c a of None \<Rightarrow> None | Some d \<Rightarrow> chain_walk rd part d b)"
proof (induction b)
  case 0
  show ?case by (simp split: option.splits)
next
  case (Suc b)
  show ?case
    using Suc by (auto split: option.splits)
qed

lemma chain_walk_Suc_left:
  "chain_walk rd part c (Suc n) =
     (case fat_next rd part c of None \<Rightarrow> None | Some d \<Rightarrow> chain_walk rd part d n)"
  using chain_walk_add [of rd part c 1 n] by (simp split: option.splits)

lemma geom_ok_pos: "geom_ok part \<Longrightarrow> 0 < unat (blocks_per_cluster part)"
  by (simp add: geom_ok_def)

lemma geom_ok_bytes:
  assumes "geom_ok part"
  shows "unat (blocks_per_cluster part * 512) = cluster_bytes part"
    and "0 < cluster_bytes part" and "512 dvd cluster_bytes part"
    and "blocks_per_cluster part * 512 \<noteq> 0"
proof -
  from assms have lt: "unat (blocks_per_cluster part) < 256" and pos: "0 < unat (blocks_per_cluster part)"
    by (simp_all add: geom_ok_def)
  have "unat (blocks_per_cluster part * 512) = unat (blocks_per_cluster part) * unat (512 :: u32)"
    using lt by (intro unat_mult_lem [THEN iffD1]) simp
  then show u: "unat (blocks_per_cluster part * 512) = cluster_bytes part"
    by (simp add: cluster_bytes_def)
  show p: "0 < cluster_bytes part" using pos by (simp add: cluster_bytes_def)
  show "512 dvd cluster_bytes part" by (simp add: cluster_bytes_def)
  from u p show "blocks_per_cluster part * 512 \<noteq> 0" by (auto simp: unat_eq_0 [symmetric])
qed

text \<open>The cursor moves on by one block.\<close>

lemma cluster_pos_advance_cursor:
  assumes ok: "cache_ok s" and g: "geom_ok part"
    and c: "cursor_at (dev_read s) part c0 cpos k"
    and a: "cluster_pos_advance s cpos part = (r, s')"
  shows "cache_ok s' \<and> dev_read s' = dev_read s \<and>
         (\<forall>cpos'. r = Some cpos' \<longrightarrow> cursor_at (dev_read s) part c0 cpos' (Suc k)) \<and>
         (r = None \<longleftrightarrow> Suc k mod unat (blocks_per_cluster part) = 0 \<and>
                      fat_next (dev_read s) part (cluster_no cpos) = None)"
proof -
  define B where "B = unat (blocks_per_cluster part)"
  from g have B: "0 < B" "B < 256" by (simp_all add: geom_ok_def B_def)
  from c have w: "chain_walk (dev_read s) part c0 (k div B) = Some (cluster_no cpos)"
    and bic: "unat (block_in_cluster cpos) = k mod B"
    by (simp_all add: cursor_at_def B_def)
  have lt: "k mod B < B" using B by simp
  have "unat (block_in_cluster cpos + 1) = unat (block_in_cluster cpos) + unat (1 :: u32)"
  proof (intro unat_add_lem [THEN iffD1])
    from lt B have "k mod B < 255" by arith
    with bic show "unat (block_in_cluster cpos) + unat (1 :: u32) < 2 ^ LENGTH(32)" by simp
  qed
  then have u1: "unat (block_in_cluster cpos + 1) = k mod B + 1"
    using bic by simp
  have eq: "block_in_cluster cpos + 1 = blocks_per_cluster part \<longleftrightarrow> k mod B + 1 = B"
    using u1 by (simp add: word_unat_eq_iff B_def)
  have st: "cache_ok s' \<and> dev_read s' = dev_read s"
    using cluster_pos_advance_step [OF a] ok by (rule cache_step_dev_read)
  show ?thesis
  proof (cases "k mod B + 1 = B")
    case False
    then have m: "Suc k mod B = Suc (k mod B)" using lt by (simp add: mod_Suc)
    from False have d: "Suc k div B = k div B" using lt by (simp add: div_Suc m)
    from a eq False have r: "r = Some (cpos\<lparr>block_in_cluster := block_in_cluster cpos + 1\<rparr>)"
      by (simp add: cluster_pos_advance_def Let_def)
    have "cursor_at (dev_read s) part c0 (cpos\<lparr>block_in_cluster := block_in_cluster cpos + 1\<rparr>) (Suc k)"
      using w u1 m d by (simp add: cursor_at_def B_def [symmetric])
    with r st m B show ?thesis by (simp add: B_def [symmetric])
  next
    case True
    then have m: "Suc k mod B = 0" by (simp add: mod_Suc)
    from True have d: "Suc k div B = Suc (k div B)" by (simp add: div_Suc m)
    obtain r1 s1 where n: "next_cluster s part (cluster_no cpos) = (r1, s1)"
      by (cases "next_cluster s part (cluster_no cpos)")
    have r1: "r1 = fat_next (dev_read s) part (cluster_no cpos)"
      using ok n by (rule next_cluster_fat_next)
    show ?thesis
    proof (cases r1)
      case None
      with a eq True n have "r = None" by (simp add: cluster_pos_advance_def Let_def)
      with st m None r1 show ?thesis by (simp add: B_def [symmetric])
    next
      case (Some c1)
      with a eq True n have r: "r = Some (cpos\<lparr>block_in_cluster := 0, cluster_no := c1,
          cluster_start_blk := first_block_of_cluster part c1\<rparr>)"
        by (auto simp add: cluster_pos_advance_def Let_def)
      have "chain_walk (dev_read s) part c0 (Suc k div B) = Some c1"
        using w r1 Some by (simp add: d)
      then have "cursor_at (dev_read s) part c0 (cpos\<lparr>block_in_cluster := 0, cluster_no := c1,
          cluster_start_blk := first_block_of_cluster part c1\<rparr>) (Suc k)"
        using m by (simp add: cursor_at_def B_def [symmetric])
      with r st Some r1 show ?thesis by (simp add: B_def [symmetric])
    qed
  qed
qed

section \<open>The cursor of a read\<close>

text \<open>A read that succeeds has gone through its three phases, or was one of no bytes.\<close>

lemma read_impl_success:
  assumes r: "read_impl s fd nbyte0 = (Ok (cnt, out), s')"
    and f: "f = files s ! fd"
    and nbyte: "nbyte = (if nbyte0 > fsize (info f) - offset f then fsize (info f) - offset f
                         else nbyte0)"
    and part: "part = partitions s ! part_no (info f)"
  shows "(oflag f) AND MFAT_O_RDONLY \<noteq> 0 \<and>
         ((nbyte = 0 \<and> cnt = 0 \<and> out = [] \<and> s' = s) \<or>
          (nbyte \<noteq> 0 \<and>
           (\<exists>cpos cpos1 br1 out1 s1 cpos2 br2 out2 s2 br s3.
              cluster_pos_init_from_file part f = Ok cpos \<and>
              read_head s part f cpos nbyte = (Some (cpos1, br1, out1), s1) \<and>
              read_body s1 part cpos1 nbyte br1 out1 = (Some (cpos2, br2, out2), s2) \<and>
              read_tail s2 cpos2 nbyte br2 out2 = (Some (br, out), s3) \<and>
              cnt = uint br \<and>
              s' = set_file s3 fd (f\<lparr>current_cluster := cluster_no cpos2,
                                       offset := offset f + br\<rparr>))))"
proof -
  note eq = r [unfolded read_impl_def Let_def, folded f, folded nbyte part]
  show ?thesis
  proof (cases "(oflag f) AND MFAT_O_RDONLY = 0")
    case True
    with eq show ?thesis by simp
  next
    case perm: False
    show ?thesis
    proof (cases "nbyte = 0")
      case True
      with eq perm show ?thesis by simp
    next
      case nz: False
      show ?thesis
      proof (cases "cluster_pos_init_from_file part f")
        case Trap
        with eq perm nz show ?thesis by simp
      next
        case Fail
        with eq perm nz show ?thesis by simp
      next
        case (Ok cpos)
        obtain r1 s1 where h: "read_head s part f cpos nbyte = (r1, s1)"
          by (cases "read_head s part f cpos nbyte")
        show ?thesis
        proof (cases r1)
          case None
          with eq perm nz Ok h show ?thesis by simp
        next
          case (Some x1)
          obtain cpos1 br1 out1 where x1: "x1 = (cpos1, br1, out1)" by (cases x1)
          obtain r2 s2 where b: "read_body s1 part cpos1 nbyte br1 out1 = (r2, s2)"
            by (cases "read_body s1 part cpos1 nbyte br1 out1")
          note r1 = Some [unfolded x1]
          show ?thesis
          proof (cases r2)
            case None
            with eq perm nz Ok h r1 b show ?thesis by simp
          next
            case (Some x2)
            obtain cpos2 br2 out2 where x2: "x2 = (cpos2, br2, out2)" by (cases x2)
            obtain r3 s3 where t: "read_tail s2 cpos2 nbyte br2 out2 = (r3, s3)"
              by (cases "read_tail s2 cpos2 nbyte br2 out2")
            note r2 = Some [unfolded x2]
            note st3 = read_phases_step(3) [OF h r1 b r2 t]
            show ?thesis
            proof (cases r3)
              case None
              with eq perm nz Ok h r1 b r2 t show ?thesis by simp
            next
              case (Some x3)
              obtain br out3 where x3: "x3 = (br, out3)" by (cases x3)
              from st3 have fs: "files s3 = files s" by (simp add: cache_step_def)
              from eq perm nz Ok h r1 b r2 t Some x3 fs have
                "cnt = uint br" "out = out3"
                "s' = set_file s3 fd (f\<lparr>current_cluster := cluster_no cpos2,
                                         offset := offset f + br\<rparr>)"
                by (simp_all add: f)
              with perm nz Ok h r1 b r2 t Some x3 show ?thesis by blast
            qed
          qed
        qed
      qed
    qed
  qed
qed

text \<open>
  The three phases, for a cursor that stands at the block of the byte \<open>P + bytes_read\<close>,
  where \<open>P\<close> is the offset of the file within its current cluster.
\<close>

lemma read_head_cursor:
  assumes ok: "cache_ok s" and g: "geom_ok part"
    and c: "cursor_at (dev_read s) part c0 cpos (P div 512)"
    and pm: "P mod 512 = unat (offset f) mod 512"
    and h: "read_head s part f cpos nbyte = (Some (cpos1, br1, out1), s1)"
  shows "cache_ok s1 \<and> dev_read s1 = dev_read s \<and>
         cursor_at (dev_read s) part c0 cpos1 ((P + unat br1) div 512) \<and>
         br1 \<le> nbyte \<and> ((P + unat br1) mod 512 = 0 \<or> br1 = nbyte)"
proof -
  define bo where "bo = unat (offset f) mod 512"
  have bo: "unat (offset f mod 512) = bo" by (simp add: bo_def unat_mod)
  have st: "cache_ok s1 \<and> dev_read s1 = dev_read s"
    using read_head_step [OF h] ok by (rule cache_step_dev_read)
  show ?thesis
  proof (cases "offset f mod 512 = 0")
    case True
    with h have "cpos1 = cpos" "br1 = 0" by (simp_all add: read_head_def)
    moreover from True bo have "bo = 0" by simp
    ultimately show ?thesis using st c pm by (simp add: bo_def)
  next
    case False
    then have bo0: "0 < bo" using bo by (metis unat_gt_0)
    have bolt: "bo < 512" by (simp add: bo_def)
    have le: "offset f mod 512 \<le> 512"
      using bolt bo by (simp add: word_le_nat_alt)
    have tb: "unat (512 - offset f mod 512) = 512 - bo"
      using unat_sub [OF le] bo by simp
    obtain r0 s0 where rd: "read_block s (cluster_pos_blk_no cpos) MFAT_CACHE_DATA = (r0, s0)"
      by (cases "read_block s (cluster_pos_blk_no cpos) MFAT_CACHE_DATA")
    from h False rd obtain k0 where r0: "r0 = Some k0"
      by (cases r0) (auto simp: read_head_def)
    have t: "MFAT_CACHE_DATA < MFAT_NUM_CACHES" by simp
    from read_block_ok [OF ok t rd] read_block_step [OF t rd] ok
    have ok0: "cache_ok s0" and dr0: "dev_read s0 = dev_read s"
      by (auto dest: cache_step_dev_read)
    define btc where "btc = mfat_min (512 - offset f mod 512) nbyte"
    have "P = 512 * (P div 512) + P mod 512" by simp
    then have pk: "P = 512 * (P div 512) + bo" using pm by (simp only: bo_def)
    show ?thesis
    proof (cases "btc = 512 - offset f mod 512")
      case True
      obtain ra sa where a: "cluster_pos_advance s0 cpos part = (ra, sa)"
        by (cases "cluster_pos_advance s0 cpos part")
      from h False rd r0 True a have ra: "ra = Some cpos1" and br1: "br1 = btc"
        by (auto simp: read_head_def Let_def btc_def split: option.splits)
      from cluster_pos_advance_cursor [OF ok0 g c [folded dr0] a] ra dr0
      have c1: "cursor_at (dev_read s) part c0 cpos1 (Suc (P div 512))" by simp
      have u: "unat br1 = 512 - bo" using br1 True tb by simp
      have "P + unat br1 = 512 * Suc (P div 512)" using pk u bolt by simp
      then have "(P + unat br1) div 512 = Suc (P div 512)" "(P + unat br1) mod 512 = 0"
        by simp_all
      moreover have "br1 \<le> nbyte" using br1 by (auto simp add: btc_def mfat_min_def)
      ultimately show ?thesis using st c1 by simp
    next
      case nf: False
      from h False rd r0 nf have c1: "cpos1 = cpos" and br1: "br1 = btc"
        by (auto simp: read_head_def Let_def btc_def split: option.splits)
      from nf have bn: "btc = nbyte" and lt: "nbyte < 512 - offset f mod 512"
        by (auto simp: btc_def mfat_min_def split: if_splits)
      from lt have "unat nbyte < 512 - bo" using tb by (simp add: word_less_nat_alt)
      then have "bo + unat nbyte < 512" by simp
      then have "(512 * (P div 512) + (bo + unat nbyte)) div 512 = P div 512" by simp
      then have "(P + unat br1) div 512 = P div 512"
        using pk br1 bn by (simp add: add.assoc)
      with st c c1 br1 bn show ?thesis by simp
    qed
  qed
qed

lemma read_body_cursor:
  assumes "cache_ok s" and g: "geom_ok part"
    and "cursor_at rd part c0 cpos ((P + unat br) div 512)" and "rd = dev_read s"
    and "(P + unat br) mod 512 = 0 \<or> br = nbyte"
    and "br \<le> nbyte"
    and "read_body s part cpos nbyte br out = (Some (cpos', br', out'), s')"
  shows "cache_ok s' \<and> dev_read s' = dev_read s \<and>
         cursor_at rd part c0 cpos' ((P + unat br') div 512) \<and>
         br' \<le> nbyte \<and> unat nbyte - unat br' < 512 \<and>
         ((P + unat br') mod 512 = 0 \<or> br' = nbyte)"
  using assms
proof (induction s part cpos nbyte br out rule: read_body.induct)
  case (1 s part cpos nbyte br out)
  note b = "1.prems"(7) [unfolded read_body.simps [of s part cpos nbyte br out]]
  note ok = "1.prems"(1) and g = "1.prems"(2) and c = "1.prems"(3) and rd = "1.prems"(4)
    and al = "1.prems"(5) and le = "1.prems"(6)
  show ?case
  proof (cases "nbyte - br \<ge> 512")
    case False
    with b have e: "cpos' = cpos" "br' = br" "s' = s" by simp_all
    from le have "unat (nbyte - br) = unat nbyte - unat br" by (rule unat_sub)
    with False have "unat nbyte - unat br < 512" by (simp add: word_le_nat_alt)
    with e ok c al le show ?thesis by simp
  next
    case True
    from le have sub: "unat (nbyte - br) = unat nbyte - unat br" by (rule unat_sub)
    from True sub have ge: "512 \<le> unat nbyte - unat br" by (simp add: word_le_nat_alt)
    from le have leu: "unat br \<le> unat nbyte" by (simp add: word_le_nat_alt)
    have lt32: "unat nbyte < 2 ^ 32" using unsigned_less [of nbyte] by simp
    have "unat (br + 512) = unat br + unat (512 :: u32)"
      using ge leu lt32 by (intro unat_add_lem [THEN iffD1]) simp
    then have u: "unat (br + 512) = unat br + 512" by simp
    have le': "br + 512 \<le> nbyte" using u ge leu by (simp add: word_le_nat_alt)
    from ge have "br \<noteq> nbyte" by auto
    with al have al0: "(P + unat br) mod 512 = 0" by simp
    from b True obtain d where neoc: "\<not> is_eoc (cluster_no cpos)"
      and d: "dev_read s (cluster_pos_blk_no cpos) = Some d"
      by (auto split: if_splits option.splits)
    obtain ra sa where a: "cluster_pos_advance s cpos part = (ra, sa)"
      by (cases "cluster_pos_advance s cpos part")
    from b True neoc d a obtain cpos1 where ra: "ra = Some cpos1"
      and rec: "read_body sa part cpos1 nbyte (br + 512) (out @ d) = (Some (cpos', br', out'), s')"
      by (auto split: option.splits)
    from cluster_pos_advance_cursor [OF ok g c [unfolded rd] a] ra
    have oka: "cache_ok sa" and dra: "dev_read sa = dev_read s"
      and c1: "cursor_at (dev_read s) part c0 cpos1 (Suc ((P + unat br) div 512))"
      by simp_all
    have "(P + unat (br + 512)) div 512 = Suc ((P + unat br) div 512)"
      using u by (simp add: add.assoc [symmetric])
    with c1 have c1': "cursor_at rd part c0 cpos1 ((P + unat (br + 512)) div 512)"
      by (simp add: rd)
    have al': "(P + unat (br + 512)) mod 512 = 0 \<or> br + 512 = nbyte"
      using al0 u by (simp add: add.assoc [symmetric])
    have rd': "rd = dev_read sa" using rd dra by simp
    from "1.IH" [OF True neoc d a [symmetric] ra oka g c1' rd' al' le' rec] dra
    show ?thesis by simp
  qed
qed

lemma read_tail_count:
  assumes "br2 \<le> nbyte"
    and "read_tail s cpos nbyte br2 out2 = (Some (br, out), s')"
  shows "br = nbyte"
proof (cases "br2 < nbyte")
  case True
  with assms(2) show ?thesis
    by (auto simp: read_tail_def Let_def split: if_splits prod.splits option.splits)
next
  case False
  with assms(1) have "br2 = nbyte" by simp
  with assms(2) show ?thesis by (simp add: read_tail_def)
qed

text \<open>
  A read that succeeds returns the clamped count, adds it to the offset, and leaves as
  the current cluster the one that is reached from the old current cluster by following
  the chain once for every cluster boundary that the offset has passed or reached.
\<close>

lemma read_impl_cursor:
  assumes ok: "cache_ok s" and f: "f = files s ! fd" and part: "part = partitions s ! part_no (info f)"
    and g: "geom_ok part" and le: "offset f \<le> fsize (info f)"
    and r: "read_impl s fd nbyte0 = (Ok (cnt, out), s')"
  shows "cnt = int (min (unat nbyte0) (unat (fsize (info f)) - unat (offset f))) \<and>
         unat (offset f + word_of_int cnt) = unat (offset f) + nat cnt \<and>
         cache_ok s' \<and> dev_read s' = dev_read s \<and> partitions s' = partitions s \<and>
         initialized s' = initialized s \<and> active_partition s' = active_partition s \<and>
         (\<exists>c. chain_walk (dev_read s) part (current_cluster f)
                 ((unat (offset f) mod cluster_bytes part + nat cnt) div cluster_bytes part) = Some c \<and>
              files s' = (files s)[fd := f\<lparr>current_cluster := c,
                                            offset := offset f + word_of_int cnt\<rparr>])"
proof -
  define nbyte where
    "nbyte = (if nbyte0 > fsize (info f) - offset f then fsize (info f) - offset f else nbyte0)"
  define cs where "cs = cluster_bytes part"
  define P where "P = unat (offset f) mod cs"
  note gb = geom_ok_bytes [OF g, folded cs_def]
  from le have sub: "unat (fsize (info f) - offset f) = unat (fsize (info f)) - unat (offset f)"
    by (rule unat_sub)
  from le have leu: "unat (offset f) \<le> unat (fsize (info f))" by (simp add: word_le_nat_alt)
  have n: "unat nbyte = min (unat nbyte0) (unat (fsize (info f)) - unat (offset f))"
    using sub by (auto simp: nbyte_def word_less_nat_alt min_def)
  have lt32: "unat (fsize (info f)) < 2 ^ 32" using unsigned_less [of "fsize (info f)"] by simp
  have "unat (offset f + nbyte) = unat (offset f) + unat nbyte"
    using n leu lt32 by (intro unat_add_lem [THEN iffD1]) simp
  then have un: "unat (offset f + nbyte) = unat (offset f) + unat nbyte" .
  from read_impl_success [OF r f nbyte_def part]
  consider (zero) "nbyte = 0" "cnt = 0" "s' = s"
    | (phases) cpos cpos1 br1 out1 s1 cpos2 br2 out2 s2 br s3 where
        "nbyte \<noteq> 0" "cluster_pos_init_from_file part f = Ok cpos"
        "read_head s part f cpos nbyte = (Some (cpos1, br1, out1), s1)"
        "read_body s1 part cpos1 nbyte br1 out1 = (Some (cpos2, br2, out2), s2)"
        "read_tail s2 cpos2 nbyte br2 out2 = (Some (br, out), s3)"
        "cnt = uint br"
        "s' = set_file s3 fd (f\<lparr>current_cluster := cluster_no cpos2, offset := offset f + br\<rparr>)"
    by blast
  then show ?thesis
  proof cases
    case zero
    have "P div cs = 0" using gb(2) by (simp add: P_def)
    moreover have "(files s)[fd := f\<lparr>current_cluster := current_cluster f, offset := offset f\<rparr>] = files s"
      by (simp add: f)
    ultimately show ?thesis
      using zero n ok by (simp add: P_def [symmetric] cs_def [symmetric])
  next
    case phases
    note h = phases(3) and b = phases(4) and t = phases(5)
    from phases(2) have cpos: "cpos = \<lparr>cluster_no = current_cluster f,
        block_in_cluster = (offset f mod (blocks_per_cluster part * 512)) div 512,
        cluster_start_blk = first_block_of_cluster part (current_cluster f)\<rparr>"
      by (auto simp: cluster_pos_init_from_file_def cluster_pos_init_def split: if_splits)
    have um: "unat (offset f mod (blocks_per_cluster part * 512)) = P"
      by (simp add: unat_mod gb(1) P_def)
    have ub: "unat (block_in_cluster cpos) = P div 512"
      by (simp add: cpos unat_div um)
    define B where "B = unat (blocks_per_cluster part)"
    have csB: "cs = B * 512" by (simp add: cs_def cluster_bytes_def B_def)
    have B0: "0 < B" using g by (simp add: geom_ok_def B_def)
    have Plt: "P < cs" using gb(2) by (simp add: P_def)
    then have klt: "P div 512 < B" using csB by (simp add: less_mult_imp_div_less)
    have c0: "cursor_at (dev_read s) part (current_cluster f) cpos (P div 512)"
      using ub klt by (simp add: cursor_at_def cpos B_def [symmetric])
    have pm: "P mod 512 = unat (offset f) mod 512"
      unfolding P_def using gb(3) by (simp add: mod_mod_cancel)
    from read_head_cursor [OF ok g c0 pm h]
    have ok1: "cache_ok s1" and dr1: "dev_read s1 = dev_read s"
      and c1: "cursor_at (dev_read s) part (current_cluster f) cpos1 ((P + unat br1) div 512)"
      and le1: "br1 \<le> nbyte" and al1: "(P + unat br1) mod 512 = 0 \<or> br1 = nbyte"
      by simp_all
    from read_body_cursor [OF ok1 g c1 dr1 [symmetric] al1 le1 b]
    have ok2: "cache_ok s2" and dr2: "dev_read s2 = dev_read s"
      and c2: "cursor_at (dev_read s) part (current_cluster f) cpos2 ((P + unat br2) div 512)"
      and le2: "br2 \<le> nbyte" and rem: "unat nbyte - unat br2 < 512"
      and al2: "(P + unat br2) mod 512 = 0 \<or> br2 = nbyte"
      using dr1 by simp_all
    have br: "br = nbyte" using le2 t by (rule read_tail_count)
    have st3: "cache_step s s3" using read_phases_step(3) [OF h refl b refl t] .
    from cache_step_dev_read [OF st3 ok] have ok3: "cache_ok s3" and dr3: "dev_read s3 = dev_read s"
      by simp_all
    from st3 have fr: "files s3 = files s" "partitions s3 = partitions s"
      "initialized s3 = initialized s" "active_partition s3 = active_partition s"
      by (simp_all add: cache_step_def)
    have same_blk: "(P + unat nbyte) div 512 = (P + unat br2) div 512"
    proof (cases "br2 = nbyte")
      case True
      then show ?thesis by simp
    next
      case False
      with al2 have a0: "(P + unat br2) mod 512 = 0" by simp
      from le2 have l: "unat br2 \<le> unat nbyte" by (simp add: word_le_nat_alt)
      define e where "e = unat nbyte - unat br2"
      have e: "unat nbyte = unat br2 + e" "e < 512" using l rem by (simp_all add: e_def)
      from a0 obtain q where q: "P + unat br2 = 512 * q" by (auto simp: mod_eq_0_iff_dvd)
      have "P + unat nbyte = 512 * q + e" using q e by simp
      then have "(P + unat nbyte) div 512 = q" using e(2) by simp
      moreover have "(P + unat br2) div 512 = q" using q by simp
      ultimately show ?thesis by simp
    qed
    have "chain_walk (dev_read s) part (current_cluster f) (((P + unat nbyte) div 512) div B)
            = Some (cluster_no cpos2)"
      using c2 same_blk by (simp add: cursor_at_def B_def)
    moreover have "((P + unat nbyte) div 512) div B = (P + unat nbyte) div cs"
    proof -
      have "cs = 512 * B" by (simp add: csB)
      then show ?thesis by (simp add: div_mult2_eq)
    qed
    ultimately have w: "chain_walk (dev_read s) part (current_cluster f) ((P + unat nbyte) div cs)
            = Some (cluster_no cpos2)" by simp
    have cnt: "cnt = int (unat nbyte)" using phases(6) br by simp
    then have wc: "(word_of_int cnt :: u32) = nbyte" by simp
    have ok': "cache_ok s'" "dev_read s' = dev_read s"
      using cache_pres_dev_read [OF cache_pres_set_file ok3, of fd] dr3 phases(7) by simp_all
    show ?thesis
      using cnt wc n un w ok' fr phases(7) br
      by (simp add: P_def [symmetric] cs_def [symmetric])
  qed
qed

section \<open>The cluster search of a seek\<close>

lemma lseek_skip_cursor:
  assumes "cache_ok s" and "unat bpcw = cs" and "0 < cs"
    and "chain_walk rd part first q = Some cur" and "rd = dev_read s"
    and "unat cluster_offset = q * cs" and "cluster_offset \<le> target"
    and "lseek_skip s part target bpcw cur cluster_offset = (Some c, s')"
  shows "cache_ok s' \<and> dev_read s' = dev_read s \<and>
         chain_walk rd part first (unat target div cs) = Some c"
  using assms
proof (induction s part target bpcw cur cluster_offset arbitrary: q
    rule: lseek_skip.induct)
  case (1 s part target bpcw cur cluster_offset)
  note ok = "1.prems"(1) and cs = "1.prems"(2) and pos = "1.prems"(3) and w = "1.prems"(4)
    and rd = "1.prems"(5) and co = "1.prems"(6) and le = "1.prems"(7)
  note sk = "1.prems"(8) [unfolded lseek_skip.simps [of s part target bpcw cur cluster_offset]]
  from le have sub: "unat (target - cluster_offset) = unat target - unat cluster_offset"
    by (rule unat_sub)
  from le have leu: "unat cluster_offset \<le> unat target" by (simp add: word_le_nat_alt)
  from cs pos have nz: "bpcw \<noteq> 0" by auto
  show ?case
  proof (cases "target - cluster_offset \<ge> bpcw")
    case False
    with sk nz have e: "c = cur" "s' = s" by simp_all
    from False sub cs have "unat target - q * cs < cs" by (simp add: word_le_nat_alt co)
    with leu co have "unat target div cs = q"
      by (metis add.commute div_less div_mult_self1 le_add_diff_inverse less_numeral_extra(3)
          mult.commute plus_nat.add_0 pos)
    with e w ok show ?thesis by simp
  next
    case True
    from True sub cs have ge: "cs \<le> unat target - q * cs" by (simp add: word_le_nat_alt co)
    from sk nz True have neoc: "\<not> is_eoc cur" by (auto split: if_splits)
    obtain r1 s1 where n: "next_cluster s part cur = (r1, s1)"
      by (cases "next_cluster s part cur")
    from sk nz True neoc n obtain c1 where r1: "r1 = Some c1"
      and rec: "lseek_skip s1 part target bpcw c1 (cluster_offset + bpcw) = (Some c, s')"
      by (auto split: option.splits)
    have fn: "fat_next (dev_read s) part cur = Some c1"
      using next_cluster_fat_next [OF ok n] r1 by simp
    from cache_step_dev_read [OF next_cluster_step [OF n] ok]
    have ok1: "cache_ok s1" and dr1: "dev_read s1 = dev_read s" by simp_all
    have w1: "chain_walk rd part first (Suc q) = Some c1" using w fn rd by simp
    have lt32: "unat target < 2 ^ 32" using unsigned_less [of target] by simp
    have "unat (cluster_offset + bpcw) = unat cluster_offset + unat bpcw"
      using ge leu lt32 co cs by (intro unat_add_lem [THEN iffD1]) simp
    then have co1: "unat (cluster_offset + bpcw) = Suc q * cs" using co cs by simp
    have le1: "cluster_offset + bpcw \<le> target" using co1 ge leu co by (simp add: word_le_nat_alt)
    have c1: "(bpcw \<noteq> 0 \<and> bpcw \<le> target - cluster_offset)" using nz True by simp
    from "1.IH" [OF c1 neoc n [symmetric] r1 ok1 cs pos w1 _ co1 le1 rec] rd dr1
    show ?thesis by simp
  qed
qed

text \<open>
  A seek that succeeds sets the offset to the target, which is within the file, and the
  current cluster to the one that is reached from the first cluster by following the
  chain once for every whole cluster before the target.
\<close>

lemma lseek_impl_cursor:
  assumes ok: "cache_ok s" and f: "f = files s ! fd" and part: "part = partitions s ! part_no (info f)"
    and g: "geom_ok part" and le: "offset f \<le> fsize (info f)"
    and inv: "chain_walk (dev_read s) part (first_cluster (info f))
                (unat (offset f) div cluster_bytes part) = Some (current_cluster f)"
    and r: "lseek_impl s fd offs whence = (Ok t, s')"
  shows "cache_ok s' \<and> dev_read s' = dev_read s \<and> partitions s' = partitions s \<and>
         initialized s' = initialized s \<and> active_partition s' = active_partition s \<and>
         (\<exists>tw c. t = uint tw \<and> tw \<le> fsize (info f) \<and>
            chain_walk (dev_read s) part (first_cluster (info f)) (unat tw div cluster_bytes part)
              = Some c \<and>
            files s' = (files s)[fd := f\<lparr>offset := tw, current_cluster := c\<rparr>])"
proof -
  define t64 where
    "t64 = (if whence = MFAT_SEEK_SET then Some (sint offs)
            else if whence = MFAT_SEEK_END then Some (uint (fsize (info f)) + sint offs)
            else if whence = MFAT_SEEK_CUR then Some (uint (offset f) + sint offs)
            else None)"
  define bpcw where "bpcw = blocks_per_cluster part * 512"
  define cs where "cs = cluster_bytes part"
  define cluster_offset where "cluster_offset = offset f - (offset f mod bpcw)"
  note gb = geom_ok_bytes [OF g, folded cs_def bpcw_def]
  note eq = r [unfolded lseek_impl_def Let_def, folded f, folded t64_def part,
      folded bpcw_def, folded cluster_offset_def]
  from eq obtain target_offset_64 where t: "t64 = Some target_offset_64"
    by (cases t64) auto
  define target where "target = (word_of_int target_offset_64 :: u32)"
  define start where
    "start = (if target < cluster_offset then (first_cluster (info f), 0)
              else (current_cluster f, cluster_offset))"
  from eq t gb(4) have range: "0 \<le> target_offset_64" "target_offset_64 \<le> uint (fsize (info f))"
    by (auto split: if_splits)
  obtain r1 s1 where sk: "lseek_skip s part target bpcw (fst start) (snd start) = (r1, s1)"
    by (cases "lseek_skip s part target bpcw (fst start) (snd start)")
  from eq t range gb(4) sk obtain c where r1: "r1 = Some c"
    by (cases r1) (auto simp: target_def start_def split: if_splits)
  have st: "cache_step s s1" using sk by (rule lseek_skip_step)
  then have fr: "files s1 = files s" "partitions s1 = partitions s"
    "initialized s1 = initialized s" "active_partition s1 = active_partition s"
    by (simp_all add: cache_step_def)
  from eq t range gb(4) sk r1 fr have res: "t = uint target"
    "s' = set_file s1 fd (f\<lparr>offset := target, current_cluster := c\<rparr>)"
    by (auto simp: target_def start_def f split: if_splits)
  have "uint (fsize (info f)) < 2 ^ 32" using uint_bounded [of "fsize (info f)"] by simp
  with range have ut: "uint target = target_offset_64"
    unfolding target_def by (simp add: uint_word_of_int take_bit_int_eq_self)
  with range have tle: "target \<le> fsize (info f)" by (simp add: word_le_def)
  have um: "unat (offset f mod bpcw) = unat (offset f) mod cs" by (simp add: unat_mod gb(1))
  have mle: "offset f mod bpcw \<le> offset f"
    by (simp add: word_le_nat_alt um)
  have uco: "unat cluster_offset = (unat (offset f) div cs) * cs"
    unfolding cluster_offset_def using unat_sub [OF mle] um
    by (simp add: minus_mod_eq_div_mult)
  have "cache_ok s1 \<and> dev_read s1 = dev_read s \<and>
      chain_walk (dev_read s) part (first_cluster (info f)) (unat target div cs) = Some c"
  proof (cases "target < cluster_offset")
    case True
    then have s0: "fst start = first_cluster (info f)" "snd start = 0" by (simp_all add: start_def)
    have w0: "chain_walk (dev_read s) part (first_cluster (info f)) 0 = Some (first_cluster (info f))"
      by simp
    show ?thesis
      by (rule lseek_skip_cursor [OF ok gb(1) gb(2) w0 refl _ _ sk [unfolded s0 r1]]) simp_all
  next
    case False
    then have s0: "fst start = current_cluster f" "snd start = cluster_offset"
      by (simp_all add: start_def)
    from False have le0: "cluster_offset \<le> target" by simp
    show ?thesis
      by (rule lseek_skip_cursor [OF ok gb(1) gb(2) inv [folded cs_def] refl uco le0
            sk [unfolded s0 r1]])
  qed
  then have ok1: "cache_ok s1" and dr1: "dev_read s1 = dev_read s"
    and w: "chain_walk (dev_read s) part (first_cluster (info f)) (unat target div cs) = Some c"
    by simp_all
  have ok': "cache_ok s'" "dev_read s' = dev_read s"
    using cache_pres_dev_read [OF cache_pres_set_file ok1, of fd] dr1 res(2) by simp_all
  have "files s' = (files s)[fd := f\<lparr>offset := target, current_cluster := c\<rparr>]"
    using res(2) fr by simp
  with ok' fr res tle w show ?thesis
    by (auto simp: cs_def)
qed

section \<open>The invariant of the context\<close>

lemma file_ok_cong:
  "dev_read s' = dev_read s \<Longrightarrow> partitions s' = partitions s \<Longrightarrow> file_ok s' f = file_ok s f"
  by (simp add: file_ok_def)

lemma mfat_inv_update:
  assumes inv: "mfat_inv s" and ok: "cache_ok s'" and dr: "dev_read s' = dev_read s"
    and ps: "partitions s' = partitions s" and i: "initialized s' = initialized s"
    and a: "active_partition s' = active_partition s"
    and fs: "files s' = (files s)[fd := f']" and f': "is_open f' \<longrightarrow> file_ok s f'"
  shows "mfat_inv s'"
proof -
  have "file_ok s' f" if "f \<in> set (files s')" "is_open f" for f
  proof -
    from that(1) fs have "f = f' \<or> f \<in> set (files s)"
      using set_update_subset_insert [of "files s" fd f'] by auto
    with that(2) f' inv have "file_ok s f" by (auto simp: mfat_inv_def)
    then show ?thesis by (simp add: file_ok_cong [OF dr ps])
  qed
  with inv ok ps i a fs show ?thesis by (simp add: mfat_inv_def)
qed

lemma mfat_inv_cache_step:
  assumes inv: "mfat_inv s" and st: "cache_step s s'"
  shows "mfat_inv s'"
proof -
  from inv have ok: "cache_ok s" by (simp add: mfat_inv_def)
  from cache_step_dev_read [OF st ok] have ok': "cache_ok s'" and dr: "dev_read s' = dev_read s"
    by simp_all
  from st have fr: "files s' = files s" "partitions s' = partitions s"
    "initialized s' = initialized s" "active_partition s' = active_partition s"
    by (simp_all add: cache_step_def)
  have "files s' = (files s)[0 := files s ! 0]" using fr by simp
  from mfat_inv_update [OF inv ok' dr fr(2) fr(3) fr(4) this] inv show ?thesis
    by (cases "files s") (auto simp: mfat_inv_def)
qed

lemma get_file_Some:
  "get_file s fd = Some k \<Longrightarrow> k = nat fd \<and> k < MFAT_NUM_FDS \<and> is_open (files s ! k)"
  by (auto simp: get_file_def split: if_splits)

lemma mfat_inv_file:
  assumes "mfat_inv s" and "k < MFAT_NUM_FDS" and "is_open (files s ! k)"
  shows "file_ok s (files s ! k)"
proof -
  from assms(1,2) have "files s ! k \<in> set (files s)" by (simp add: mfat_inv_def)
  with assms(1,3) show ?thesis by (simp add: mfat_inv_def)
qed

subsection \<open>The functions that leave the file descriptors alone\<close>

lemma mfat_inv_sync: "mfat_inv s \<Longrightarrow> mfat_inv (mfat_sync s)"
  using sync_impl_step [of s] by (auto simp: mfat_sync_def intro: mfat_inv_cache_step)

lemma mfat_inv_uninit:
  assumes "mfat_inv s"
  shows "mfat_inv (s\<lparr>initialized := False\<rparr>)"
proof -
  have "cache_pres s (s\<lparr>initialized := False\<rparr>)" by (rule cache_pres_same) simp_all
  from cache_pres_dev_read [OF this] assms
  have "cache_ok (s\<lparr>initialized := False\<rparr>)" "dev_read (s\<lparr>initialized := False\<rparr>) = dev_read s"
    by (simp_all add: mfat_inv_def)
  with assms show ?thesis by (simp add: mfat_inv_def file_ok_def)
qed

lemma mfat_inv_unmount: "mfat_inv s \<Longrightarrow> mfat_inv (mfat_unmount s)"
  unfolding mfat_unmount_def
  using sync_impl_step [of s] by (blast intro: mfat_inv_cache_step mfat_inv_uninit)

lemma mfat_inv_select_partition:
  assumes inv: "mfat_inv s" and sp: "mfat_select_partition s p = (r, s')"
  shows "mfat_inv s'"
proof (cases "r = Fail")
  case True
  with sp have "s' = s" by (auto simp: mfat_select_partition_def split: if_splits)
  with inv show ?thesis by simp
next
  case False
  with sp have s': "s' = s\<lparr>active_partition := p\<rparr>" and i: "initialized s"
    and p: "0 \<le> p" "p < int MFAT_NUM_PARTITIONS"
      "ptype (partitions s ! nat p) \<noteq> MFAT_TYPE_UNKNOWN"
    by (auto simp: mfat_select_partition_def split: if_splits)
  have "cache_pres s (s\<lparr>active_partition := p\<rparr>)" by (rule cache_pres_same) simp_all
  from cache_pres_dev_read [OF this] inv
  have "cache_ok (s\<lparr>active_partition := p\<rparr>)" "dev_read (s\<lparr>active_partition := p\<rparr>) = dev_read s"
    by (simp_all add: mfat_inv_def)
  with inv i p show ?thesis unfolding s' by (simp add: mfat_inv_def file_ok_def)
qed

lemma mfat_inv_fstat:
  assumes "mfat_inv s" and "mfat_fstat s fd = (r, s')"
  shows "mfat_inv s'"
proof -
  from assms(2) have "s' = s \<or> (\<exists>fi. fstat_impl s fi = (r, s'))"
    by (auto simp: mfat_fstat_def split: if_splits option.splits)
  with assms(1) show ?thesis by (auto dest!: fstat_impl_step intro: mfat_inv_cache_step)
qed

lemma mfat_inv_stat:
  assumes "mfat_inv s" and "mfat_stat s path stat_given = (r, s')"
  shows "mfat_inv s'"
proof -
  from assms(2) have "s' = s \<or> (\<exists>p. stat_impl s p = (r, s'))"
    by (auto simp: mfat_stat_def split: if_splits option.splits)
  with assms(1) show ?thesis by (auto dest!: stat_impl_step intro: mfat_inv_cache_step)
qed

lemma mfat_inv_write:
  assumes "mfat_inv s" and "mfat_write s fd wbuf nbyte = (r, s')"
  shows "mfat_inv s'"
  using assms by (auto simp: mfat_write_def write_impl_same split: if_splits option.splits)

subsection \<open>Open and close\<close>

lemma free_fd_closed:
  "free_fd fs n < n + length fs \<Longrightarrow> \<not> is_open (fs ! (free_fd fs n - n)) \<and> n \<le> free_fd fs n"
proof (induction fs arbitrary: n)
  case Nil
  then show ?case by simp
next
  case (Cons f fs)
  show ?case
  proof (cases "is_open f")
    case False
    then show ?thesis by simp
  next
    case True
    with Cons.prems have "free_fd fs (Suc n) < Suc n + length fs" by simp
    from Cons.IH [OF this] True show ?thesis by (simp add: Suc_diff_le)
  qed
qed

lemma find_file_part_no:
  "find_file s pno path = (Ok (finfo, d, e), s1) \<Longrightarrow> part_no finfo = pno"
  unfolding find_file_def Let_def
  by (auto split: res.splits prod.splits if_splits)

lemma mfat_inv_open:
  assumes inv: "mfat_inv s" and op: "mfat_open s path oflg = (r, s')"
  shows "mfat_inv s'"
proof (cases "\<exists>p. initialized s \<and> 0 \<le> active_partition s \<and> open_impl s p oflg = (r, s')")
  case False
  with op have "s' = s" by (auto simp: mfat_open_def split: if_splits option.splits)
  with inv show ?thesis by simp
next
  case True
  then obtain p where i: "initialized s" and a0: "0 \<le> active_partition s"
    and oi: "open_impl s p oflg = (r, s')" by blast
  define fd where "fd = free_fd (take MFAT_NUM_FDS (files s)) 0"
  define pno where "pno = nat (active_partition s)"
  from inv have len: "length (files s) = MFAT_NUM_FDS" by (simp add: mfat_inv_def)
  note eq = oi [unfolded open_impl_def Let_def, folded fd_def pno_def]
  show ?thesis
  proof (cases "fd \<ge> MFAT_NUM_FDS")
    case True
    with eq have "s' = s" by simp
    with inv show ?thesis by simp
  next
    case False
    then have fdlt: "fd < MFAT_NUM_FDS" by simp
    with free_fd_closed [of "take MFAT_NUM_FDS (files s)" 0] len
    have closed: "\<not> is_open (files s ! fd)" by (simp add: fd_def)
    obtain r1 s1 where ff: "find_file s pno p = (r1, s1)" by (cases "find_file s pno p")
    have st: "cache_step s s1" using ff by (rule find_file_step)
    note inv1 = mfat_inv_cache_step [OF inv st]
    from st have fr: "files s1 = files s" "partitions s1 = partitions s"
      "initialized s1 = initialized s" "active_partition s1 = active_partition s"
      by (simp_all add: cache_step_def)
    from inv1 have ok1: "cache_ok s1" by (simp add: mfat_inv_def)
    show ?thesis
    proof (cases r1)
      case Trap
      with eq False ff inv1 show ?thesis by simp
    next
      case Fail
      with eq False ff inv1 show ?thesis by simp
    next
      case (Ok x)
      obtain finfo is_dir exists where x: "x = (finfo, is_dir, exists)" by (cases x)
      have pn: "part_no finfo = pno" using ff [unfolded Ok x] by (rule find_file_part_no)
      define f1 where "f1 = (files s1 ! fd)\<lparr>info := finfo\<rparr>"
      define f2 where "f2 = f1\<lparr>is_open := True, oflag := oflg,
          current_cluster := first_cluster (info f1), offset := 0\<rparr>"
      from eq False ff Ok x have s': "s' = set_file s1 fd f1 \<or> s' = set_file (set_file s1 fd f1) fd f2"
        by (auto simp: f1_def f2_def split: if_splits)
      have c1: "\<not> is_open f1" using closed fr by (simp add: f1_def)
      from inv i a0 have act: "pno < MFAT_NUM_PARTITIONS"
        "ptype (partitions s ! pno) \<noteq> MFAT_TYPE_UNKNOWN"
        "part_decoded (partitions s ! pno)"
        by (auto simp: mfat_inv_def pno_def)
      then have geo: "geom_ok (partitions s1 ! pno)" using fr by (simp add: part_decoded_def)
      have ok2: "file_ok s1 f2"
        using act(1) geo pn by (simp add: file_ok_def f2_def f1_def)
      from s' show ?thesis
      proof
        assume e: "s' = set_file s1 fd f1"
        have "cache_ok s' \<and> dev_read s' = dev_read s1"
          unfolding e using cache_pres_dev_read [OF cache_pres_set_file ok1] by simp
        then show ?thesis
          using c1 by (intro mfat_inv_update [OF inv1, of s' fd f1]) (simp_all add: e)
      next
        assume e: "s' = set_file (set_file s1 fd f1) fd f2"
        then have e': "s' = set_file s1 fd f2" by (simp add: set_file_def)
        have "cache_ok s' \<and> dev_read s' = dev_read s1"
          unfolding e' using cache_pres_dev_read [OF cache_pres_set_file ok1] by simp
        then show ?thesis
          using ok2 by (intro mfat_inv_update [OF inv1, of s' fd f2]) (simp_all add: e')
      qed
    qed
  qed
qed

lemma mfat_inv_close:
  assumes inv: "mfat_inv s" and cl: "mfat_close s fd = (r, s')"
  shows "mfat_inv s'"
proof (cases "\<exists>k. close_impl s k = (r, s')")
  case False
  with cl have "s' = s" by (auto simp: mfat_close_def split: if_splits option.splits)
  with inv show ?thesis by simp
next
  case True
  then obtain k where ci: "close_impl s k = (r, s')" by blast
  define s1 where "s1 = (if (oflag (files s ! k)) AND MFAT_O_WRONLY \<noteq> 0 then sync_impl s else s)"
  have st: "cache_step s s1" using sync_impl_step [of s] by (simp add: s1_def)
  note inv1 = mfat_inv_cache_step [OF inv st]
  from inv1 have ok1: "cache_ok s1" by (simp add: mfat_inv_def)
  from ci have s': "s' = set_file s1 k ((files s1 ! k)\<lparr>is_open := False\<rparr>)"
    by (simp add: close_impl_def Let_def s1_def)
  have "cache_ok s' \<and> dev_read s' = dev_read s1"
    unfolding s' using cache_pres_dev_read [OF cache_pres_set_file ok1] by simp
  then show ?thesis
    by (intro mfat_inv_update [OF inv1, of s' k "(files s1 ! k)\<lparr>is_open := False\<rparr>"])
      (simp_all add: s')
qed

subsection \<open>Read and seek\<close>

lemma file_ok_walk_add:
  assumes fo: "file_ok s f" and part: "part = partitions s ! part_no (info f)"
    and w: "chain_walk (dev_read s) part (current_cluster f)
              ((unat (offset f) mod cluster_bytes part + n) div cluster_bytes part) = Some c"
  shows "chain_walk (dev_read s) part (first_cluster (info f))
           ((unat (offset f) + n) div cluster_bytes part) = Some c"
proof -
  define cs where "cs = cluster_bytes part"
  define o' where "o' = unat (offset f)"
  from fo part have g: "geom_ok part" by (simp add: file_ok_def)
  from geom_ok_bytes(2) [OF g] have pos: "0 < cs" by (simp add: cs_def)
  from fo part have w0: "chain_walk (dev_read s) part (first_cluster (info f)) (o' div cs)
      = Some (current_cluster f)"
    by (simp add: file_ok_def cs_def o'_def)
  have "o' + n = (o' div cs) * cs + (o' mod cs + n)" by simp
  then have "(o' + n) div cs = o' div cs + (o' mod cs + n) div cs"
    using pos by (metis div_mult_self3 less_numeral_extra(3))
  then show ?thesis
    using chain_walk_add [of "dev_read s" part "first_cluster (info f)" "o' div cs"
        "(o' mod cs + n) div cs"] w0 w
    by (simp add: cs_def o'_def)
qed

lemma mfat_inv_read:
  assumes inv: "mfat_inv s" and rd: "mfat_read s fd nbyte = (r, s')" and nt: "r \<noteq> Trap"
  shows "mfat_inv s'"
proof (cases "\<exists>k. get_file s fd = Some k \<and> read_impl s k nbyte = (r, s')")
  case False
  with rd have "s' = s" by (auto simp: mfat_read_def split: if_splits option.splits)
  with inv show ?thesis by simp
next
  case True
  then obtain k where gf: "get_file s fd = Some k" and ri: "read_impl s k nbyte = (r, s')"
    by blast
  from get_file_Some [OF gf] have k: "k < MFAT_NUM_FDS" "is_open (files s ! k)" by blast+
  define f where "f = files s ! k"
  define part where "part = partitions s ! part_no (info f)"
  from mfat_inv_file [OF inv k] have fo: "file_ok s f" by (simp add: f_def)
  from inv have ok: "cache_ok s" by (simp add: mfat_inv_def)
  from read_impl_result [OF ri] nt show ?thesis
  proof (elim disjE conjE exE)
    assume "cache_step s s'"
    with inv show ?thesis by (rule mfat_inv_cache_step)
  next
    fix br out c s3
    assume r: "r = Ok (uint br, out)"
    from fo have g: "geom_ok part" and le: "offset f \<le> fsize (info f)"
      by (simp_all add: file_ok_def part_def)
    from read_impl_cursor [OF ok f_def part_def g le ri [unfolded r]] obtain c' where
      h: "uint br = int (min (unat nbyte) (unat (fsize (info f)) - unat (offset f)))"
        "unat (offset f + word_of_int (uint br)) = unat (offset f) + nat (uint br)"
        "cache_ok s'" "dev_read s' = dev_read s" "partitions s' = partitions s"
        "initialized s' = initialized s" "active_partition s' = active_partition s"
        "chain_walk (dev_read s) part (current_cluster f)
           ((unat (offset f) mod cluster_bytes part + nat (uint br)) div cluster_bytes part) = Some c'"
        "files s' = (files s)[k := f\<lparr>current_cluster := c',
                                      offset := offset f + word_of_int (uint br)\<rparr>]"
      by blast
    define f' where "f' = f\<lparr>current_cluster := c', offset := offset f + word_of_int (uint br)\<rparr>"
    from le have leu: "unat (offset f) \<le> unat (fsize (info f))" by (simp add: word_le_nat_alt)
    have "unat (offset f') \<le> unat (fsize (info f))"
      using h(1,2) leu by (simp add: f'_def)
    then have o': "offset f' \<le> fsize (info f')" by (simp add: word_le_nat_alt f'_def)
    from file_ok_walk_add [OF fo part_def h(8)] h(2)
    have "chain_walk (dev_read s) part (first_cluster (info f))
        (unat (offset f') div cluster_bytes part) = Some c'"
      by (simp add: f'_def)
    with fo o' have "file_ok s f'" by (simp add: file_ok_def f'_def part_def)
    then show ?thesis
      using h by (intro mfat_inv_update [OF inv, of s' k f']) (simp_all add: f'_def)
  qed simp
qed

lemma mfat_inv_lseek:
  assumes inv: "mfat_inv s" and ls: "mfat_lseek s fd offs whence = (r, s')" and nt: "r \<noteq> Trap"
  shows "mfat_inv s'"
proof (cases "\<exists>k. get_file s fd = Some k \<and> lseek_impl s k offs whence = (r, s')")
  case False
  with ls have "s' = s" by (auto simp: mfat_lseek_def split: if_splits option.splits)
  with inv show ?thesis by simp
next
  case True
  then obtain k where gf: "get_file s fd = Some k" and li: "lseek_impl s k offs whence = (r, s')"
    by blast
  from get_file_Some [OF gf] have k: "k < MFAT_NUM_FDS" "is_open (files s ! k)" by blast+
  define f where "f = files s ! k"
  define part where "part = partitions s ! part_no (info f)"
  from mfat_inv_file [OF inv k] have fo: "file_ok s f" by (simp add: f_def)
  from inv have ok: "cache_ok s" by (simp add: mfat_inv_def)
  from lseek_impl_result [OF li] nt show ?thesis
  proof (elim disjE conjE exE)
    assume "cache_step s s'"
    with inv show ?thesis by (rule mfat_inv_cache_step)
  next
    fix t c s1
    assume r: "r = Ok (uint (t :: u32))"
    from fo have g: "geom_ok part" and le: "offset f \<le> fsize (info f)"
      and w: "chain_walk (dev_read s) part (first_cluster (info f))
                (unat (offset f) div cluster_bytes part) = Some (current_cluster f)"
      by (simp_all add: file_ok_def part_def)
    from lseek_impl_cursor [OF ok f_def part_def g le w li [unfolded r]] obtain tw c' where
      h: "cache_ok s'" "dev_read s' = dev_read s" "partitions s' = partitions s"
        "initialized s' = initialized s" "active_partition s' = active_partition s"
        "tw \<le> fsize (info f)"
        "chain_walk (dev_read s) part (first_cluster (info f)) (unat tw div cluster_bytes part)
           = Some c'"
        "files s' = (files s)[k := f\<lparr>offset := tw, current_cluster := c'\<rparr>]"
      by blast
    from fo h(6,7) have "file_ok s (f\<lparr>offset := tw, current_cluster := c'\<rparr>)"
      by (simp add: file_ok_def part_def)
    then show ?thesis
      using h by (intro mfat_inv_update [OF inv, of s' k "f\<lparr>offset := tw, current_cluster := c'\<rparr>"])
        simp_all
  qed simp
qed

subsection \<open>Mount\<close>

lemma pick_partition_range:
  assumes a: "a = pick_partition ps 0 (- 1) (- 1)" and nn: "0 \<le> a"
  shows "nat a < length ps \<and> ptype (ps ! nat a) \<noteq> MFAT_TYPE_UNKNOWN"
proof -
  have m1: "(- 1 :: int) < 0" by simp
  note sp = pick_partition_spec [OF m1, of ps 0 "- 1"]
  show ?thesis
  proof (cases "first_index (\<lambda>p. ptype p \<noteq> MFAT_TYPE_UNKNOWN \<and> boot p) ps")
    case (Some k)
    with sp a have "a = int k" by simp
    with first_index_Some [OF Some] show ?thesis by simp
  next
    case None
    show ?thesis
    proof (cases "first_index (\<lambda>p. ptype p \<noteq> MFAT_TYPE_UNKNOWN) ps")
      case n2: None
      with sp a None nn show ?thesis by simp
    next
      case (Some k)
      with sp a None have "a = int k" by simp
      with first_index_Some [OF Some] show ?thesis by simp
    qed
  qed
qed

lemma mfat_inv_mount:
  assumes m: "mfat_mount s0 (Some rfun) (Some wfun) cst = (r, s)" and nt: "r \<noteq> Trap"
  shows "mfat_inv s"
proof -
  define c where "c = cleared_ctx rfun wfun cst"
  obtain r1 s1 where d: "decode_partition_tables c = (r1, s1)"
    by (cases "decode_partition_tables c")
  have len0: "length (partitions c) = MFAT_NUM_PARTITIONS" by (simp add: c_def)
  have st: "decode_step c s1" using d len0 by (rule decode_partition_tables_step)
  have okc: "cache_ok c" unfolding c_def by (rule cleared_ctx_cache_ok)
  from st have pres: "cache_pres c s1" and fs: "files s1 = replicate MFAT_NUM_FDS zero_file"
    and ini: "initialized s1 = False" and act: "active_partition s1 = - 1"
    and len: "length (partitions s1) = MFAT_NUM_PARTITIONS"
    by (simp_all add: decode_step_def c_def)
  from cache_pres_dev_read [OF pres okc] have ok1: "cache_ok s1" by simp
  have closed: "\<forall>f\<in>set (files s1). \<not> is_open f" by (simp add: fs zero_file_def)
  have inv1: "mfat_inv s1" using ok1 len fs ini closed by (simp add: mfat_inv_def)
  note eq = m [unfolded mfat_mount_def, simplified, folded c_def, unfolded d]
  show ?thesis
  proof (cases r1)
    case Trap
    with eq nt show ?thesis by simp
  next
    case Fail
    with eq inv1 show ?thesis by simp
  next
    case (Ok u)
    define a where "a = pick_partition (partitions s1) 0 (- 1) (- 1)"
    have tk: "take MFAT_NUM_PARTITIONS (partitions s1) = partitions s1" using len by simp
    have dec: "\<forall>p\<in>set (partitions s1). part_decoded p"
      using d [unfolded Ok] len0 by (rule decode_partition_tables_part)
    have pa: "cache_pres s1 (s1\<lparr>active_partition := a\<rparr>)"
       "cache_pres s1 (s1\<lparr>active_partition := a, initialized := True\<rparr>)"
      by (rule cache_pres_same; simp)+
    from cache_pres_dev_read [OF pa(1) ok1] cache_pres_dev_read [OF pa(2) ok1]
    have oka: "cache_ok (s1\<lparr>active_partition := a\<rparr>)"
      "cache_ok (s1\<lparr>active_partition := a, initialized := True\<rparr>)" by simp_all
    show ?thesis
    proof (cases "a < 0")
      case True
      with eq Ok have "s = s1\<lparr>active_partition := a\<rparr>"
        by (simp add: Let_def tk act a_def)
      then show ?thesis using oka(1) len fs ini closed by (simp add: mfat_inv_def)
    next
      case False
      with eq Ok have s: "s = s1\<lparr>active_partition := a, initialized := True\<rparr>"
        by (simp add: Let_def tk act a_def)
      from False have nn: "0 \<le> a" by simp
      from pick_partition_range [OF a_def nn] len
      have "nat a < MFAT_NUM_PARTITIONS" "ptype (partitions s1 ! nat a) \<noteq> MFAT_TYPE_UNKNOWN"
        by simp_all
      then show ?thesis
        unfolding s using oka(2) len fs closed dec nn by (simp add: mfat_inv_def)
    qed
  qed
qed

lemma reachable_inv: "reachable s \<Longrightarrow> mfat_inv s"
proof (induction rule: reachable.induct)
  case (r_mount s0 rfun wfun cst r s)
  then show ?case by (rule mfat_inv_mount)
next
  case (r_unmount s)
  then show ?case by (simp add: mfat_inv_unmount)
next
  case (r_select_partition s p r s')
  then show ?case by (blast intro: mfat_inv_select_partition)
next
  case (r_sync s)
  then show ?case by (simp add: mfat_inv_sync)
next
  case (r_fstat s fd rs s')
  then show ?case by (blast intro: mfat_inv_fstat)
next
  case (r_stat s path stat_given rs s')
  then show ?case by (blast intro: mfat_inv_stat)
next
  case (r_open s path oflg r s')
  then show ?case by (blast intro: mfat_inv_open)
next
  case (r_close s fd r s')
  then show ?case by (blast intro: mfat_inv_close)
next
  case (r_read s fd nbyte rr s')
  then show ?case by (blast intro: mfat_inv_read)
next
  case (r_write s fd wbuf nbyte r s')
  then show ?case by (blast intro: mfat_inv_write)
next
  case (r_lseek s fd offs whence r s')
  then show ?case by (blast intro: mfat_inv_lseek)
qed

section \<open>A read along a chain that covers it\<close>







subsection \<open>The number of bytes that the phases copy\<close>




subsection \<open>The phases do not fail\<close>








section \<open>The next cluster of a chain\<close>

text \<open>
  C3. For every partition and cluster number: the FAT entry of the cluster has 4 bytes on
  FAT32 and 2 bytes otherwise, so it starts at the byte \<open>size * cluster\<close> of the FAT, which
  is the byte \<open>(size * cluster) mod 512\<close> of the block
  \<open>first_block + num_reserved_blocks + (size * cluster) div 512\<close> (all in 32-bit
  arithmetic). \<open>next_cluster\<close> reads that block through the FAT cache and fails when the
  read fails. Otherwise its value is, from the bytes of the entry (least significant byte
  first): for FAT32 the raw 32-bit value masked with 0x0FFFFFFF, for FAT16 the raw 16-bit
  word, OR-ed with 0x0FFF0000 when the word is at least 0xFFF7. The operation fails exactly
  when that value is 0x00000000 or 0x0FFFFFF7; a value of at least 0x0FFFFFF8 (end of
  chain) is returned as a success.
\<close>

theorem next_cluster_entry:
  assumes sz: "sz = (if ptype part = MFAT_TYPE_FAT32 then 4 else 2)"
    and rd: "read_block s (first_block part + num_reserved_blocks part + (sz * cluster) div 512)
               MFAT_CACHE_FAT = (r, s1)"
    and i: "i = unat ((sz * cluster) mod 512)"
    and raw32: "raw32 = (\<lambda>b. unat (b ! i) + 256 * unat (b ! (i + 1)) + 65536 * unat (b ! (i + 2))
                  + 16777216 * unat (b ! (i + 3)))"
    and raw16: "raw16 = (\<lambda>b. unat (b ! i) + 256 * unat (b ! (i + 1)))"
    and v: "v = (\<lambda>b. if ptype part = MFAT_TYPE_FAT32 then raw32 b AND 0x0fffffff
                 else if raw16 b \<ge> 0xfff7 then raw16 b OR 0x0fff0000 else raw16 b)"
  shows "(r = None \<longrightarrow> next_cluster s part cluster = (None, s1)) \<and>
         (\<forall>k b. r = Some k \<and> b = buf (get_block s1 MFAT_CACHE_FAT k) \<longrightarrow>
            next_cluster s part cluster =
              (if v b = 0 \<or> v b = 0x0ffffff7 then None else Some (of_nat (v b)), s1) \<and>
            (v b \<ge> 0x0ffffff8 \<longrightarrow> next_cluster s part cluster = (Some (of_nat (v b)), s1)))"
proof -
  have blk: "fat_block part cluster =
      first_block part + num_reserved_blocks part + (sz * cluster) div 512"
    by (simp add: fat_block_def fat_offset_def sz)
  have off: "fat_block_offset part cluster = i"
    by (simp add: fat_block_offset_def fat_offset_def sz i)
  note rd' = rd [folded blk]
  have none: "next_cluster s part cluster = (None, s1)" if "r = None"
    using rd' that by (simp add: next_cluster_def)
  have some: "next_cluster s part cluster =
              (if v b = 0 \<or> v b = 0x0ffffff7 then None else Some (of_nat (v b)), s1) \<and>
            (v b \<ge> 0x0ffffff8 \<longrightarrow> next_cluster s part cluster = (Some (of_nat (v b)), s1))"
    if r: "r = Some k" and b: "b = buf (get_block s1 MFAT_CACHE_FAT k)" for k b
  proof -
    define e where "e = fat_entry part b i"
    have ev: "unat e = v b"
      unfolding e_def v raw32 raw16 by (simp add: fat_entry_unat get_word_unat get_dword_unat)
    then have e: "e = of_nat (v b)" by (metis of_nat_unat ucast_id)
    have z: "e = 0 \<longleftrightarrow> v b = 0" using ev by (simp add: unat_eq_0 [symmetric])
    have "e = 0x0ffffff7 \<longleftrightarrow> unat e = unat (0x0ffffff7 :: u32)" by (rule word_unat_eq_iff)
    then have bad: "e = 0x0ffffff7 \<longleftrightarrow> v b = 0x0ffffff7" using ev by simp
    have nc: "next_cluster s part cluster = (if e = 0 \<or> e = 0x0ffffff7 then None else Some e, s1)"
      using rd' r by (simp add: next_cluster_def Let_def e_def b off)
    show ?thesis using nc z bad e by auto
  qed
  from none some show ?thesis by blast
qed

text \<open>
  On the mounted FAT32 example volume: the entry of cluster 2 is 3 under the mask, that of
  cluster 3 an end-of-chain mark, those of the clusters 4 and 5 are the bad-cluster mark
  and zero under the mask, and the entry of cluster 130 is in the second block of the
  FAT. On the mounted FAT16 example volume: cluster 2 is followed by cluster 3, whose
  entry 0xFFFF is returned as 0x0FFFFFFF, and the entry of cluster 5 is zero. And on the
  FAT16 volume that was mounted with a read callback that cannot read the block of the
  FAT, the operation fails.
\<close>

theorem next_cluster_entry_witness:
  "ptype (partitions ex_mounted32 ! 0) = MFAT_TYPE_FAT32 \<and>
   ptype (partitions ex_mounted ! 0) = MFAT_TYPE_FAT16 \<and>
   fst (next_cluster ex_mounted32 (partitions ex_mounted32 ! 0) 2) = Some 3 \<and>
   fst (next_cluster ex_mounted32 (partitions ex_mounted32 ! 0) 3) = Some 0x0fffffff \<and>
   fst (next_cluster ex_mounted32 (partitions ex_mounted32 ! 0) 4) = None \<and>
   fst (next_cluster ex_mounted32 (partitions ex_mounted32 ! 0) 5) = None \<and>
   fst (next_cluster ex_mounted32 (partitions ex_mounted32 ! 0) 130) = Some 131 \<and>
   fst (next_cluster ex_mounted (partitions ex_mounted ! 0) 2) = Some 3 \<and>
   fst (next_cluster ex_mounted (partitions ex_mounted ! 0) 3) = Some 0x0fffffff \<and>
   fst (next_cluster ex_mounted (partitions ex_mounted ! 0) 5) = None \<and>
   fst (read_block ex_mounted_bad 1 MFAT_CACHE_FAT) = None \<and>
   fst (next_cluster ex_mounted_bad (partitions ex_mounted_bad ! 0) 2) = None"
proof -
  have sp: "fst p = a \<and> f (snd p) = b" if "apsnd f p = (a, b)"
    for f :: "mfat_ctx \<Rightarrow> u8 list" and p :: "nat option \<times> mfat_ctx" and a b
    using that by (cases p) simp
  have p32: "partitions ex_mounted32 ! 0 =
      \<lparr>ptype = MFAT_TYPE_FAT32, first_block = 0, num_blocks = 70000, blocks_per_cluster = 1,
       num_clusters = 69369, blocks_per_fat = 600, num_fats = 1, num_reserved_blocks = 32,
       root_dir_block = 0, blocks_in_root_dir = 0, root_dir_cluster = 2, first_data_block = 632,
       boot = False\<rparr>" by code_simp
  have p16: "partitions ex_mounted ! 0 = ex_part" by code_simp
  have pb: "partitions ex_mounted_bad ! 0 = ex_part" by code_simp
  have rb32: "apsnd (\<lambda>s. buf (get_block s MFAT_CACHE_FAT 1))
      (read_block ex_mounted32 32 MFAT_CACHE_FAT) = (Some 1, ex_fat32)" by code_simp
  have rb33: "apsnd (\<lambda>s. buf (get_block s MFAT_CACHE_FAT 1))
      (read_block ex_mounted32 33 MFAT_CACHE_FAT) = (Some 1, ex_fat32b)" by code_simp
  have rb16: "apsnd (\<lambda>s. buf (get_block s MFAT_CACHE_FAT 1))
      (read_block ex_mounted 1 MFAT_CACHE_FAT) = (Some 1, ex_fat)" by code_simp
  have t32: "ptype (partitions ex_mounted32 ! 0) = MFAT_TYPE_FAT32" by (simp add: p32)
  have t16: "ptype (partitions ex_mounted ! 0) = MFAT_TYPE_FAT16" by (simp add: p16 ex_part_def)
  have m32: "fst (next_cluster ex_mounted32 (partitions ex_mounted32 ! 0) 2) = Some 3"
  proof -
    define blk :: u32 where "blk = first_block (partitions ex_mounted32 ! 0) + num_reserved_blocks (partitions ex_mounted32 ! 0)
        + ((if ptype (partitions ex_mounted32 ! 0) = MFAT_TYPE_FAT32 then 4 else 2) * 2) div 512"
    have blk: "blk = 32" unfolding blk_def by (simp add: p32)
    define s1 where "s1 = snd (read_block ex_mounted32 32 MFAT_CACHE_FAT)"
    from sp [OF rb32] have rd: "read_block ex_mounted32 blk MFAT_CACHE_FAT = (Some 1, s1)"
      by (simp add: blk s1_def prod_eq_iff)
    define i where "i = unat (((if ptype (partitions ex_mounted32 ! 0) = MFAT_TYPE_FAT32 then 4 else 2) * 2) mod 512 :: u32)"
    have i: "i = 8" unfolding i_def by (simp add: p32)
    define b where "b = buf (get_block s1 MFAT_CACHE_FAT 1)"
    have b: "b = ex_fat32" using sp [OF rb32] by (simp add: b_def s1_def)
    have b0: "b ! (8) = 0x03" unfolding b by code_simp
    have b1: "b ! (8 + 1) = 0" unfolding b by code_simp
    have b2: "b ! (8 + 2) = 0" unfolding b by code_simp
    have b3: "b ! (8 + 3) = 0xf0" unfolding b by code_simp
    from next_cluster_entry [OF refl rd [unfolded blk_def] i_def refl refl refl,
        THEN conjunct2, rule_format, of 1 b]
    have "next_cluster ex_mounted32 (partitions ex_mounted32 ! 0) 2 = (Some 3, s1)"
      unfolding i using b_def b0 b1 b2 b3 by (simp add: p32)
    then show ?thesis by simp
  qed
  have e32: "fst (next_cluster ex_mounted32 (partitions ex_mounted32 ! 0) 3) = Some 0x0fffffff"
  proof -
    define blk :: u32 where "blk = first_block (partitions ex_mounted32 ! 0) + num_reserved_blocks (partitions ex_mounted32 ! 0)
        + ((if ptype (partitions ex_mounted32 ! 0) = MFAT_TYPE_FAT32 then 4 else 2) * 3) div 512"
    have blk: "blk = 32" unfolding blk_def by (simp add: p32)
    define s1 where "s1 = snd (read_block ex_mounted32 32 MFAT_CACHE_FAT)"
    from sp [OF rb32] have rd: "read_block ex_mounted32 blk MFAT_CACHE_FAT = (Some 1, s1)"
      by (simp add: blk s1_def prod_eq_iff)
    define i where "i = unat (((if ptype (partitions ex_mounted32 ! 0) = MFAT_TYPE_FAT32 then 4 else 2) * 3) mod 512 :: u32)"
    have i: "i = 12" unfolding i_def by (simp add: p32)
    define b where "b = buf (get_block s1 MFAT_CACHE_FAT 1)"
    have b: "b = ex_fat32" using sp [OF rb32] by (simp add: b_def s1_def)
    have b0: "b ! (12) = 0xff" unfolding b by code_simp
    have b1: "b ! (12 + 1) = 0xff" unfolding b by code_simp
    have b2: "b ! (12 + 2) = 0xff" unfolding b by code_simp
    have b3: "b ! (12 + 3) = 0x0f" unfolding b by code_simp
    from next_cluster_entry [OF refl rd [unfolded blk_def] i_def refl refl refl,
        THEN conjunct2, rule_format, of 1 b]
    have "next_cluster ex_mounted32 (partitions ex_mounted32 ! 0) 3 = (Some 0x0fffffff, s1)"
      unfolding i using b_def b0 b1 b2 b3 by (simp add: p32)
    then show ?thesis by simp
  qed
  have b32: "fst (next_cluster ex_mounted32 (partitions ex_mounted32 ! 0) 4) = None"
  proof -
    define blk :: u32 where "blk = first_block (partitions ex_mounted32 ! 0) + num_reserved_blocks (partitions ex_mounted32 ! 0)
        + ((if ptype (partitions ex_mounted32 ! 0) = MFAT_TYPE_FAT32 then 4 else 2) * 4) div 512"
    have blk: "blk = 32" unfolding blk_def by (simp add: p32)
    define s1 where "s1 = snd (read_block ex_mounted32 32 MFAT_CACHE_FAT)"
    from sp [OF rb32] have rd: "read_block ex_mounted32 blk MFAT_CACHE_FAT = (Some 1, s1)"
      by (simp add: blk s1_def prod_eq_iff)
    define i where "i = unat (((if ptype (partitions ex_mounted32 ! 0) = MFAT_TYPE_FAT32 then 4 else 2) * 4) mod 512 :: u32)"
    have i: "i = 16" unfolding i_def by (simp add: p32)
    define b where "b = buf (get_block s1 MFAT_CACHE_FAT 1)"
    have b: "b = ex_fat32" using sp [OF rb32] by (simp add: b_def s1_def)
    have b0: "b ! (16) = 0xf7" unfolding b by code_simp
    have b1: "b ! (16 + 1) = 0xff" unfolding b by code_simp
    have b2: "b ! (16 + 2) = 0xff" unfolding b by code_simp
    have b3: "b ! (16 + 3) = 0xff" unfolding b by code_simp
    from next_cluster_entry [OF refl rd [unfolded blk_def] i_def refl refl refl,
        THEN conjunct2, rule_format, of 1 b]
    have "next_cluster ex_mounted32 (partitions ex_mounted32 ! 0) 4 = (None, s1)"
      unfolding i using b_def b0 b1 b2 b3 by (simp add: p32)
    then show ?thesis by simp
  qed
  have z32: "fst (next_cluster ex_mounted32 (partitions ex_mounted32 ! 0) 5) = None"
  proof -
    define blk :: u32 where "blk = first_block (partitions ex_mounted32 ! 0) + num_reserved_blocks (partitions ex_mounted32 ! 0)
        + ((if ptype (partitions ex_mounted32 ! 0) = MFAT_TYPE_FAT32 then 4 else 2) * 5) div 512"
    have blk: "blk = 32" unfolding blk_def by (simp add: p32)
    define s1 where "s1 = snd (read_block ex_mounted32 32 MFAT_CACHE_FAT)"
    from sp [OF rb32] have rd: "read_block ex_mounted32 blk MFAT_CACHE_FAT = (Some 1, s1)"
      by (simp add: blk s1_def prod_eq_iff)
    define i where "i = unat (((if ptype (partitions ex_mounted32 ! 0) = MFAT_TYPE_FAT32 then 4 else 2) * 5) mod 512 :: u32)"
    have i: "i = 20" unfolding i_def by (simp add: p32)
    define b where "b = buf (get_block s1 MFAT_CACHE_FAT 1)"
    have b: "b = ex_fat32" using sp [OF rb32] by (simp add: b_def s1_def)
    have b0: "b ! (20) = 0" unfolding b by code_simp
    have b1: "b ! (20 + 1) = 0" unfolding b by code_simp
    have b2: "b ! (20 + 2) = 0" unfolding b by code_simp
    have b3: "b ! (20 + 3) = 0xf0" unfolding b by code_simp
    from next_cluster_entry [OF refl rd [unfolded blk_def] i_def refl refl refl,
        THEN conjunct2, rule_format, of 1 b]
    have "next_cluster ex_mounted32 (partitions ex_mounted32 ! 0) 5 = (None, s1)"
      unfolding i using b_def b0 b1 b2 b3 by (simp add: p32)
    then show ?thesis by simp
  qed
  have s32: "fst (next_cluster ex_mounted32 (partitions ex_mounted32 ! 0) 130) = Some 131"
  proof -
    define blk :: u32 where "blk = first_block (partitions ex_mounted32 ! 0) + num_reserved_blocks (partitions ex_mounted32 ! 0)
        + ((if ptype (partitions ex_mounted32 ! 0) = MFAT_TYPE_FAT32 then 4 else 2) * 130) div 512"
    have blk: "blk = 33" unfolding blk_def by (simp add: p32)
    define s1 where "s1 = snd (read_block ex_mounted32 33 MFAT_CACHE_FAT)"
    from sp [OF rb33] have rd: "read_block ex_mounted32 blk MFAT_CACHE_FAT = (Some 1, s1)"
      by (simp add: blk s1_def prod_eq_iff)
    define i where "i = unat (((if ptype (partitions ex_mounted32 ! 0) = MFAT_TYPE_FAT32 then 4 else 2) * 130) mod 512 :: u32)"
    have i: "i = 8" unfolding i_def by (simp add: p32)
    define b where "b = buf (get_block s1 MFAT_CACHE_FAT 1)"
    have b: "b = ex_fat32b" using sp [OF rb33] by (simp add: b_def s1_def)
    have b0: "b ! (8) = 0x83" unfolding b by code_simp
    have b1: "b ! (8 + 1) = 0" unfolding b by code_simp
    have b2: "b ! (8 + 2) = 0" unfolding b by code_simp
    have b3: "b ! (8 + 3) = 0" unfolding b by code_simp
    from next_cluster_entry [OF refl rd [unfolded blk_def] i_def refl refl refl,
        THEN conjunct2, rule_format, of 1 b]
    have "next_cluster ex_mounted32 (partitions ex_mounted32 ! 0) 130 = (Some 131, s1)"
      unfolding i using b_def b0 b1 b2 b3 by (simp add: p32)
    then show ?thesis by simp
  qed
  have n16: "fst (next_cluster ex_mounted (partitions ex_mounted ! 0) 2) = Some 3"
  proof -
    define blk :: u32 where "blk = first_block (partitions ex_mounted ! 0) + num_reserved_blocks (partitions ex_mounted ! 0)
        + ((if ptype (partitions ex_mounted ! 0) = MFAT_TYPE_FAT32 then 4 else 2) * 2) div 512"
    have blk: "blk = 1" unfolding blk_def by (simp add: p16 ex_part_def)
    define s1 where "s1 = snd (read_block ex_mounted 1 MFAT_CACHE_FAT)"
    from sp [OF rb16] have rd: "read_block ex_mounted blk MFAT_CACHE_FAT = (Some 1, s1)"
      by (simp add: blk s1_def prod_eq_iff)
    define i where "i = unat (((if ptype (partitions ex_mounted ! 0) = MFAT_TYPE_FAT32 then 4 else 2) * 2) mod 512 :: u32)"
    have i: "i = 4" unfolding i_def by (simp add: p16 ex_part_def)
    define b where "b = buf (get_block s1 MFAT_CACHE_FAT 1)"
    have b: "b = ex_fat" using sp [OF rb16] by (simp add: b_def s1_def)
    have b0: "b ! (4) = 3" unfolding b by code_simp
    have b1: "b ! (4 + 1) = 0" unfolding b by code_simp
    from next_cluster_entry [OF refl rd [unfolded blk_def] i_def refl refl refl,
        THEN conjunct2, rule_format, of 1 b]
    have "next_cluster ex_mounted (partitions ex_mounted ! 0) 2 = (Some 3, s1)"
      unfolding i using b_def b0 b1 by (simp add: p16 ex_part_def)
    then show ?thesis by simp
  qed
  have e16: "fst (next_cluster ex_mounted (partitions ex_mounted ! 0) 3) = Some 0x0fffffff"
  proof -
    define blk :: u32 where "blk = first_block (partitions ex_mounted ! 0) + num_reserved_blocks (partitions ex_mounted ! 0)
        + ((if ptype (partitions ex_mounted ! 0) = MFAT_TYPE_FAT32 then 4 else 2) * 3) div 512"
    have blk: "blk = 1" unfolding blk_def by (simp add: p16 ex_part_def)
    define s1 where "s1 = snd (read_block ex_mounted 1 MFAT_CACHE_FAT)"
    from sp [OF rb16] have rd: "read_block ex_mounted blk MFAT_CACHE_FAT = (Some 1, s1)"
      by (simp add: blk s1_def prod_eq_iff)
    define i where "i = unat (((if ptype (partitions ex_mounted ! 0) = MFAT_TYPE_FAT32 then 4 else 2) * 3) mod 512 :: u32)"
    have i: "i = 6" unfolding i_def by (simp add: p16 ex_part_def)
    define b where "b = buf (get_block s1 MFAT_CACHE_FAT 1)"
    have b: "b = ex_fat" using sp [OF rb16] by (simp add: b_def s1_def)
    have b0: "b ! (6) = 0xff" unfolding b by code_simp
    have b1: "b ! (6 + 1) = 0xff" unfolding b by code_simp
    from next_cluster_entry [OF refl rd [unfolded blk_def] i_def refl refl refl,
        THEN conjunct2, rule_format, of 1 b]
    have "next_cluster ex_mounted (partitions ex_mounted ! 0) 3 = (Some 0x0fffffff, s1)"
      unfolding i using b_def b0 b1 by (simp add: p16 ex_part_def)
    then show ?thesis by simp
  qed
  have z16: "fst (next_cluster ex_mounted (partitions ex_mounted ! 0) 5) = None"
  proof -
    define blk :: u32 where "blk = first_block (partitions ex_mounted ! 0) + num_reserved_blocks (partitions ex_mounted ! 0)
        + ((if ptype (partitions ex_mounted ! 0) = MFAT_TYPE_FAT32 then 4 else 2) * 5) div 512"
    have blk: "blk = 1" unfolding blk_def by (simp add: p16 ex_part_def)
    define s1 where "s1 = snd (read_block ex_mounted 1 MFAT_CACHE_FAT)"
    from sp [OF rb16] have rd: "read_block ex_mounted blk MFAT_CACHE_FAT = (Some 1, s1)"
      by (simp add: blk s1_def prod_eq_iff)
    define i where "i = unat (((if ptype (partitions ex_mounted ! 0) = MFAT_TYPE_FAT32 then 4 else 2) * 5) mod 512 :: u32)"
    have i: "i = 10" unfolding i_def by (simp add: p16 ex_part_def)
    define b where "b = buf (get_block s1 MFAT_CACHE_FAT 1)"
    have b: "b = ex_fat" using sp [OF rb16] by (simp add: b_def s1_def)
    have b0: "b ! (10) = 0" unfolding b by code_simp
    have b1: "b ! (10 + 1) = 0" unfolding b by code_simp
    from next_cluster_entry [OF refl rd [unfolded blk_def] i_def refl refl refl,
        THEN conjunct2, rule_format, of 1 b]
    have "next_cluster ex_mounted (partitions ex_mounted ! 0) 5 = (None, s1)"
      unfolding i using b_def b0 b1 by (simp add: p16 ex_part_def)
    then show ?thesis by simp
  qed
  have rn: "fst (read_block ex_mounted_bad 1 MFAT_CACHE_FAT) = None" by code_simp
  have rf: "fst (next_cluster ex_mounted_bad (partitions ex_mounted_bad ! 0) 2) = None"
  proof -
    define blk :: u32 where "blk = first_block (partitions ex_mounted_bad ! 0) + num_reserved_blocks (partitions ex_mounted_bad ! 0)
        + ((if ptype (partitions ex_mounted_bad ! 0) = MFAT_TYPE_FAT32 then 4 else 2) * 2) div 512"
    have blk: "blk = 1" unfolding blk_def by (simp add: pb ex_part_def)
    define s1 where "s1 = snd (read_block ex_mounted_bad 1 MFAT_CACHE_FAT)"
    from rn have rd: "read_block ex_mounted_bad blk MFAT_CACHE_FAT = (None, s1)"
      by (simp add: blk s1_def prod_eq_iff)
    from next_cluster_entry [OF refl rd [unfolded blk_def] refl refl refl refl]
    show ?thesis by simp
  qed
  from t32 t16 m32 e32 b32 z32 s32 n16 e16 z16 rn rf show ?thesis by simp
qed

section \<open>The scan of a directory block\<close>




lemma read_impl_no_trap:
  assumes "geom_ok (partitions s ! part_no (info (files s ! k)))"
  shows "fst (read_impl s k nbyte) \<noteq> Trap"
proof -
  from geom_ok_bytes(4) [OF assms]
  have "cluster_pos_init_from_file (partitions s ! part_no (info (files s ! k))) (files s ! k) \<noteq> Trap"
    by (simp add: cluster_pos_init_from_file_def cluster_pos_init_def)
  then show ?thesis
    unfolding read_impl_def Let_def
    by (auto split: res.splits prod.splits option.splits if_splits)
qed

section \<open>The current cluster of an open file\<close>

text \<open>
  C2. In every context that the library can reach, every open file descriptor has its
  offset within the file, and its current cluster is the cluster that is reached from the
  first cluster of the file by following the FAT chain of the medium once for each of the
  \<open>offset div (blocks_per_cluster * 512)\<close> whole clusters before the offset. One step of
  that chain is what \<open>next_cluster\<close> returns in such a context. The contexts that open,
  read and seek leave are reachable again, so these operations (as every other one) keep
  the invariant, which is \<open>file_ok\<close> for each open file descriptor.
\<close>

theorem current_cluster_invariant:
  assumes "reachable s"
  shows "(\<forall>fd<MFAT_NUM_FDS. is_open (files s ! fd) \<longrightarrow>
            offset (files s ! fd) \<le> fsize (info (files s ! fd)) \<and>
            0 < unat (blocks_per_cluster (partitions s ! part_no (info (files s ! fd)))) \<and>
            chain_walk (dev_read s) (partitions s ! part_no (info (files s ! fd)))
              (first_cluster (info (files s ! fd)))
              (unat (offset (files s ! fd)) div
                 (unat (blocks_per_cluster (partitions s ! part_no (info (files s ! fd)))) * 512))
              = Some (current_cluster (files s ! fd))) \<and>
         (\<forall>part c. fst (next_cluster s part c) = fat_next (dev_read s) part c) \<and>
         (\<forall>path oflg r s'. mfat_open s path oflg = (r, s') \<and> r \<noteq> Trap \<longrightarrow>
            (\<forall>fd<MFAT_NUM_FDS. is_open (files s' ! fd) \<longrightarrow> file_ok s' (files s' ! fd))) \<and>
         (\<forall>fd nbyte r s'. mfat_read s fd nbyte = (r, s') \<longrightarrow>
            r \<noteq> Trap \<and>
            (\<forall>fd<MFAT_NUM_FDS. is_open (files s' ! fd) \<longrightarrow> file_ok s' (files s' ! fd))) \<and>
         (\<forall>fd offs whence r s'. mfat_lseek s fd offs whence = (r, s') \<and> r \<noteq> Trap \<longrightarrow>
            (\<forall>fd<MFAT_NUM_FDS. is_open (files s' ! fd) \<longrightarrow> file_ok s' (files s' ! fd)))"
proof -
  note inv = reachable_inv [OF assms]
  have files_ok: "file_ok t (files t ! fd)"
    if "reachable t" "fd < MFAT_NUM_FDS" "is_open (files t ! fd)" for t fd
    using mfat_inv_file [OF reachable_inv [OF that(1)] that(2,3)] .
  have here: "offset (files s ! fd) \<le> fsize (info (files s ! fd)) \<and>
            0 < unat (blocks_per_cluster (partitions s ! part_no (info (files s ! fd)))) \<and>
            chain_walk (dev_read s) (partitions s ! part_no (info (files s ! fd)))
              (first_cluster (info (files s ! fd)))
              (unat (offset (files s ! fd)) div
                 (unat (blocks_per_cluster (partitions s ! part_no (info (files s ! fd)))) * 512))
              = Some (current_cluster (files s ! fd))"
    if "fd < MFAT_NUM_FDS" "is_open (files s ! fd)" for fd
    using files_ok [OF assms that] by (simp add: file_ok_def geom_ok_def cluster_bytes_def)
  have nc: "fst (next_cluster s part c) = fat_next (dev_read s) part c" for part c
  proof -
    from inv have ok: "cache_ok s" by (simp add: mfat_inv_def)
    have "next_cluster s part c = (fst (next_cluster s part c), snd (next_cluster s part c))"
      by simp
    from next_cluster_fat_next [OF ok this] show ?thesis .
  qed
  have op: "file_ok s' (files s' ! fd)"
    if "mfat_open s path oflg = (r, s')" "r \<noteq> Trap" "fd < MFAT_NUM_FDS" "is_open (files s' ! fd)"
    for path oflg r s' fd
    using files_ok [OF reachable.r_open [OF assms that(1,2)] that(3,4)] .
  have nt: "r \<noteq> Trap" if rd: "mfat_read s fd nbyte = (r, s')" for fd nbyte r s'
  proof (cases "\<exists>k. get_file s fd = Some k \<and> read_impl s k nbyte = (r, s')")
    case False
    with rd show ?thesis by (auto simp: mfat_read_def split: if_splits option.splits)
  next
    case True
    then obtain k where gf: "get_file s fd = Some k" and ri: "read_impl s k nbyte = (r, s')"
      by blast
    from get_file_Some [OF gf] have "k < MFAT_NUM_FDS" "is_open (files s ! k)" by blast+
    from mfat_inv_file [OF inv this] have "geom_ok (partitions s ! part_no (info (files s ! k)))"
      by (simp add: file_ok_def)
    from read_impl_no_trap [OF this, of nbyte] ri show ?thesis by simp
  qed
  have rd: "file_ok s' (files s' ! fd')"
    if "mfat_read s fd nbyte = (r, s')" "fd' < MFAT_NUM_FDS" "is_open (files s' ! fd')"
    for fd nbyte r s' fd'
    using files_ok [OF reachable.r_read [OF assms that(1) nt [OF that(1)]] that(2,3)] .
  have ls: "file_ok s' (files s' ! fd')"
    if "mfat_lseek s fd offs whence = (r, s')" "r \<noteq> Trap" "fd' < MFAT_NUM_FDS"
      "is_open (files s' ! fd')"
    for fd offs whence r s' fd'
    using files_ok [OF reachable.r_lseek [OF assms that(1,2)] that(3,4)] .
  have c1: "\<forall>fd<MFAT_NUM_FDS. is_open (files s ! fd) \<longrightarrow>
            offset (files s ! fd) \<le> fsize (info (files s ! fd)) \<and>
            0 < unat (blocks_per_cluster (partitions s ! part_no (info (files s ! fd)))) \<and>
            chain_walk (dev_read s) (partitions s ! part_no (info (files s ! fd)))
              (first_cluster (info (files s ! fd)))
              (unat (offset (files s ! fd)) div
                 (unat (blocks_per_cluster (partitions s ! part_no (info (files s ! fd)))) * 512))
              = Some (current_cluster (files s ! fd))"
    using here by blast
  have c2: "\<forall>part c. fst (next_cluster s part c) = fat_next (dev_read s) part c"
    using nc by blast
  have c3: "\<forall>path oflg r s'. mfat_open s path oflg = (r, s') \<and> r \<noteq> Trap \<longrightarrow>
            (\<forall>fd<MFAT_NUM_FDS. is_open (files s' ! fd) \<longrightarrow> file_ok s' (files s' ! fd))"
    using op by blast
  have c4: "\<forall>fd nbyte r s'. mfat_read s fd nbyte = (r, s') \<longrightarrow>
            r \<noteq> Trap \<and>
            (\<forall>fd<MFAT_NUM_FDS. is_open (files s' ! fd) \<longrightarrow> file_ok s' (files s' ! fd))"
    using nt rd by blast
  have c5: "\<forall>fd offs whence r s'. mfat_lseek s fd offs whence = (r, s') \<and> r \<noteq> Trap \<longrightarrow>
            (\<forall>fd<MFAT_NUM_FDS. is_open (files s' ! fd) \<longrightarrow> file_ok s' (files s' ! fd))"
    using ls by blast
  from c1 c2 c3 c4 c5 show ?thesis by (intro conjI)
qed

lemma ex_reachable:
  "reachable ex_mounted" "reachable ex_hello_open" "reachable ex_hello_read"
  "reachable ex_hello_seek" "reachable ex_big_open"
proof -
  have m: "mfat_mount (cleared_ctx ex_read ex_write ex_medium) (Some ex_read) (Some ex_write)
      ex_medium = (Ok 0, ex_mounted)"
  proof -
    have "fst (mfat_mount (cleared_ctx ex_read ex_write ex_medium) (Some ex_read)
        (Some ex_write) ex_medium) = Ok 0" by code_simp
    then show ?thesis by (simp add: ex_mounted_def prod_eq_iff)
  qed
  show r0: "reachable ex_mounted" by (rule reachable.r_mount [OF m]) simp
  have o: "mfat_open ex_mounted (Some (bytes_of ''HELLO.TXT'')) MFAT_O_RDONLY = (Ok 0, ex_hello_open)"
  proof -
    have "fst (mfat_open ex_mounted (Some (bytes_of ''HELLO.TXT'')) MFAT_O_RDONLY) = Ok 0"
      by code_simp
    then show ?thesis by (simp add: ex_hello_open_def prod_eq_iff)
  qed
  show r1: "reachable ex_hello_open" by (rule reachable.r_open [OF r0 o]) simp
  have "map_res fst (fst (mfat_read ex_hello_open 0 600)) = Ok 600" by code_simp
  then have nt: "fst (mfat_read ex_hello_open 0 600) \<noteq> Trap" by auto
  have rd: "mfat_read ex_hello_open 0 600 = (fst (mfat_read ex_hello_open 0 600), ex_hello_read)"
    by (simp add: ex_hello_read_def)
  show r2: "reachable ex_hello_read" by (rule reachable.r_read [OF r1 rd nt])
  have l: "mfat_lseek ex_hello_read 0 100 MFAT_SEEK_SET = (Ok 100, ex_hello_seek)"
  proof -
    have "fst (mfat_lseek ex_hello_read 0 100 MFAT_SEEK_SET) = Ok 100" by code_simp
    then show ?thesis by (simp add: ex_hello_seek_def prod_eq_iff)
  qed
  show "reachable ex_hello_seek" by (rule reachable.r_lseek [OF r2 l]) simp
  have b: "mfat_open ex_mounted (Some (bytes_of ''BIG.BIN'')) MFAT_O_RDONLY = (Ok 0, ex_big_open)"
  proof -
    have "fst (mfat_open ex_mounted (Some (bytes_of ''BIG.BIN'')) MFAT_O_RDONLY) = Ok 0"
      by code_simp
    then show ?thesis by (simp add: ex_big_open_def prod_eq_iff)
  qed
  show "reachable ex_big_open" by (rule reachable.r_open [OF r0 b]) simp
qed

text \<open>
  On the example volume \<^verbatim>\<open>HELLO.TXT\<close> starts in cluster 2, which is followed by cluster 3,
  and a cluster has 512 bytes. After the read of 600 bytes the offset is 600 and the
  current cluster is 3, one step from the first cluster; after the seek back to 100 the
  current cluster is 2 again.
\<close>

theorem current_cluster_invariant_witness:
  "is_open (files ex_hello_read ! 0) \<and>
   offset (files ex_hello_read ! 0) = 600 \<and>
   first_cluster (info (files ex_hello_read ! 0)) = 2 \<and>
   unat (blocks_per_cluster (partitions ex_hello_read ! part_no (info (files ex_hello_read ! 0)))) = 1 \<and>
   chain_walk (dev_read ex_hello_read) (partitions ex_hello_read ! part_no (info (files ex_hello_read ! 0)))
     2 (600 div (1 * 512)) = Some 3 \<and>
   current_cluster (files ex_hello_read ! 0) = 3 \<and>
   is_open (files ex_hello_seek ! 0) \<and>
   offset (files ex_hello_seek ! 0) = 100 \<and>
   chain_walk (dev_read ex_hello_seek) (partitions ex_hello_seek ! part_no (info (files ex_hello_seek ! 0)))
     2 (100 div (1 * 512)) = Some 2 \<and>
   current_cluster (files ex_hello_seek ! 0) = 2"
proof -
  have fa: "files ex_hello_read ! 0 =
      \<lparr>is_open = True, oflag = 1, offset = 600, current_cluster = 3,
       info = \<lparr>part_no = 0, fsize = 700, first_cluster = 2, dir_entry_block = 21,
               dir_entry_offset = 0\<rparr>\<rparr>"
    by code_simp
  have pa: "blocks_per_cluster (partitions ex_hello_read ! 0) = 1" by code_simp
  have fb: "files ex_hello_seek ! 0 =
      \<lparr>is_open = True, oflag = 1, offset = 100, current_cluster = 2,
       info = \<lparr>part_no = 0, fsize = 700, first_cluster = 2, dir_entry_block = 21,
               dir_entry_offset = 0\<rparr>\<rparr>"
    by code_simp
  have pb: "blocks_per_cluster (partitions ex_hello_seek ! 0) = 1" by code_simp
  have z: "(0 :: nat) < MFAT_NUM_FDS" by simp
  have oa: "is_open (files ex_hello_read ! 0)" by (simp add: fa)
  have ob: "is_open (files ex_hello_seek ! 0)" by (simp add: fb)
  from current_cluster_invariant [OF ex_reachable(3), THEN conjunct1, rule_format, OF z oa]
  have wa: "chain_walk (dev_read ex_hello_read)
      (partitions ex_hello_read ! part_no (info (files ex_hello_read ! 0))) 2 (600 div (1 * 512)) = Some 3"
    by (simp add: fa pa)
  from current_cluster_invariant [OF ex_reachable(4), THEN conjunct1, rule_format, OF z ob]
  have wb: "chain_walk (dev_read ex_hello_seek)
      (partitions ex_hello_seek ! part_no (info (files ex_hello_seek ! 0))) 2 (100 div (1 * 512)) = Some 2"
    by (simp add: fb pb)
  from wa wb show ?thesis by (simp add: fa pa fb pb)
qed

section \<open>The read is atomic on the file descriptor\<close>

text \<open>
  C7. When \<open>mfat_read\<close> returns \<open>-1\<close>, for whatever reason, the table of file descriptors
  is what it was before the call, so the offset and the current cluster of every file
  descriptor are unchanged. When it succeeds with the count \<open>cnt\<close>, the file descriptor
  \<open>fd\<close> is the only one that changes, and its offset and its current cluster are written
  together, in one step at the end: the offset grows by \<open>cnt\<close>, and the current cluster
  becomes the cluster of the cursor of the read, which in a reachable context is the one
  that is reached from the old current cluster by following the FAT chain once for every
  cluster boundary that the offset has passed or reached. In a reachable context the read
  does not trap.
\<close>

theorem read_updates_together:
  assumes "mfat_read s fd nbyte = (r, s')"
  shows "(r = Fail \<longrightarrow> files s' = files s) \<and>
         (\<forall>cnt data. r = Ok (cnt, data) \<longrightarrow>
            (\<exists>c. files s' = (files s)[nat fd :=
                    (files s ! nat fd)\<lparr>current_cluster := c,
                                        offset := offset (files s ! nat fd) + word_of_int cnt\<rparr>] \<and>
                 (reachable s \<longrightarrow>
                    chain_walk (dev_read s) (partitions s ! part_no (info (files s ! nat fd)))
                      (current_cluster (files s ! nat fd))
                      ((unat (offset (files s ! nat fd)) mod
                          (unat (blocks_per_cluster
                             (partitions s ! part_no (info (files s ! nat fd)))) * 512)
                        + nat cnt) div
                       (unat (blocks_per_cluster
                          (partitions s ! part_no (info (files s ! nat fd)))) * 512))
                      = Some c))) \<and>
         (reachable s \<longrightarrow> r \<noteq> Trap)"
proof (cases "\<not> initialized s \<or> get_file s fd = None")
  case True
  with assms have "r = Fail" "s' = s" by (auto simp: mfat_read_def split: if_splits)
  then show ?thesis by simp
next
  case False
  then obtain k where k: "get_file s fd = Some k" by auto
  from get_file_Some [OF k] have kfd: "k = nat fd" and klt: "k < MFAT_NUM_FDS"
    and op: "is_open (files s ! k)" by blast+
  from assms False k have ri: "read_impl s k nbyte = (r, s')" by (simp add: mfat_read_def)
  define f where "f = files s ! k"
  define part where "part = partitions s ! part_no (info f)"
  have fail: "files s' = files s" if "r = Fail"
    using read_impl_result [OF ri] that by (auto simp: cache_step_def)
  have nt: "r \<noteq> Trap" if "reachable s"
  proof -
    from mfat_inv_file [OF reachable_inv [OF that] klt op]
    have "geom_ok (partitions s ! part_no (info (files s ! k)))" by (simp add: file_ok_def)
    from read_impl_no_trap [OF this, of nbyte] ri show ?thesis by simp
  qed
  have ok: "\<exists>c. files s' = (files s)[k := f\<lparr>current_cluster := c,
                                        offset := offset f + word_of_int cnt\<rparr>] \<and>
              (reachable s \<longrightarrow>
                 chain_walk (dev_read s) part (current_cluster f)
                   ((unat (offset f) mod (unat (blocks_per_cluster part) * 512) + nat cnt) div
                    (unat (blocks_per_cluster part) * 512)) = Some c)"
    if r: "r = Ok (cnt, data)" for cnt data
  proof (cases "reachable s")
    case True
    note inv = reachable_inv [OF True]
    from inv have cok: "cache_ok s" by (simp add: mfat_inv_def)
    from mfat_inv_file [OF inv klt op] have g: "geom_ok part" and le: "offset f \<le> fsize (info f)"
      by (simp_all add: file_ok_def f_def part_def)
    from read_impl_cursor [OF cok f_def part_def g le ri [unfolded r]]
    show ?thesis by (auto simp: cluster_bytes_def)
  next
    case False
    from read_impl_result [OF ri] r obtain br c s3 where
      "cnt = uint (br :: u32)" "cache_step s s3"
      "s' = set_file s3 k (f\<lparr>current_cluster := c, offset := offset f + br\<rparr>)"
      by (auto simp: f_def)
    then have "files s' = (files s)[k := f\<lparr>current_cluster := c,
        offset := offset f + word_of_int cnt\<rparr>]"
      by (simp add: cache_step_def)
    with False show ?thesis by blast
  qed
  from fail ok nt show ?thesis unfolding kfd [symmetric] f_def part_def by blast
qed

text \<open>
  On the example volume: the read of 1024 bytes from \<^verbatim>\<open>BIG.BIN\<close>, whose chain ends after
  one cluster, fails after it has read a block and leaves the file descriptors as they
  were; the read of 600 bytes from \<^verbatim>\<open>HELLO.TXT\<close> moves the offset from 0 to 600 and the
  current cluster from 2 to 3.
\<close>

theorem read_updates_together_witness:
  "fst (mfat_read ex_big_open 0 1024) = Fail \<and>
   files (snd (mfat_read ex_big_open 0 1024)) = files ex_big_open \<and>
   map_res fst (fst (mfat_read ex_hello_open 0 600)) = Ok 600 \<and>
   current_cluster (files ex_hello_open ! 0) = 2 \<and>
   files (snd (mfat_read ex_hello_open 0 600)) =
     (files ex_hello_open)[0 := (files ex_hello_open ! 0)\<lparr>current_cluster := 3, offset := 600\<rparr>]"
proof -
  have f: "fst (mfat_read ex_big_open 0 1024) = Fail" by code_simp
  have p1: "mfat_read ex_big_open 0 1024 =
      (fst (mfat_read ex_big_open 0 1024), snd (mfat_read ex_big_open 0 1024))" by simp
  from read_updates_together [OF p1] f have
    unchanged: "files (snd (mfat_read ex_big_open 0 1024)) = files ex_big_open" by simp
  have g: "map_res fst (fst (mfat_read ex_hello_open 0 600)) = Ok 600" by code_simp
  then obtain data where d: "fst (mfat_read ex_hello_open 0 600) = Ok (600, data)"
    by (cases "fst (mfat_read ex_hello_open 0 600)") auto
  have p0: "mfat_read ex_hello_open 0 600 =
      (fst (mfat_read ex_hello_open 0 600), snd (mfat_read ex_hello_open 0 600))" by simp
  have fo: "files ex_hello_open ! 0 =
      \<lparr>is_open = True, oflag = 1, offset = 0, current_cluster = 2,
       info = \<lparr>part_no = 0, fsize = 700, first_cluster = 2, dir_entry_block = 21,
               dir_entry_offset = 0\<rparr>\<rparr>"
    by code_simp
  have po: "blocks_per_cluster (partitions ex_hello_open ! 0) = 1" by code_simp
  have w: "chain_walk (dev_read ex_hello_open) (partitions ex_hello_open ! 0) 2 1 = Some 3"
    by code_simp
  from read_updates_together [OF p0, THEN conjunct2, THEN conjunct1, rule_format, OF d]
    ex_reachable(2)
  obtain c where
    fs: "files (snd (mfat_read ex_hello_open 0 600)) =
      (files ex_hello_open)[nat 0 := (files ex_hello_open ! nat 0)\<lparr>current_cluster := c,
         offset := offset (files ex_hello_open ! nat 0) + word_of_int 600\<rparr>]"
    and wc: "chain_walk (dev_read ex_hello_open)
        (partitions ex_hello_open ! part_no (info (files ex_hello_open ! nat 0)))
        (current_cluster (files ex_hello_open ! nat 0))
        ((unat (offset (files ex_hello_open ! nat 0)) mod
           (unat (blocks_per_cluster
              (partitions ex_hello_open ! part_no (info (files ex_hello_open ! nat 0)))) * 512)
          + nat 600) div
         (unat (blocks_per_cluster
            (partitions ex_hello_open ! part_no (info (files ex_hello_open ! nat 0)))) * 512))
        = Some c"
    by blast
  from wc have "chain_walk (dev_read ex_hello_open) (partitions ex_hello_open ! 0) 2 1 = Some c"
    by (simp add: fo po)
  with w have c: "c = 3" by simp
  from fs have "files (snd (mfat_read ex_hello_open 0 600)) =
     (files ex_hello_open)[0 := (files ex_hello_open ! 0)\<lparr>current_cluster := 3, offset := 600\<rparr>]"
    unfolding c by (simp add: fo)
  with f unchanged g fo show ?thesis by simp
qed

section \<open>The size of a read\<close>




section \<open>The partition that the mount makes active\<close>



section \<open>The cache invariant\<close>

lemma mfat_mount_establishes:
  "ctx_cache_inv (snd (mfat_mount s0 (Some rfun) (Some wfun) cst))"
proof -
  obtain r1 s1 where d: "decode_partition_tables (cleared_ctx rfun wfun cst) = (r1, s1)"
    by (cases "decode_partition_tables (cleared_ctx rfun wfun cst)")
  have "decode_step (cleared_ctx rfun wfun cst) s1"
    using d by (rule decode_partition_tables_step) simp
  then have "cache_pres (cleared_ctx rfun wfun cst) s1" by (simp add: decode_step_def)
  with cleared_ctx_cache_inv [of rfun wfun cst] have "ctx_cache_inv s1"
    by (simp add: cache_pres_def)
  with d show ?thesis
    by (cases r1) (simp_all add: mfat_mount_def Let_def ctx_cache_inv_def)
qed

text \<open>
  C5. The cache invariant \<open>ctx_cache_inv\<close> says of each of the two caches that its priority
  queue is a permutation of the indices of its slots and that no two slots that are not
  invalid hold the same block number. Every operation of the library keeps it: the lookup
  of a block in a cache, the read of a block through a cache, and each public function,
  whatever it returns. The mount establishes it from any context when it is given both
  callbacks. And the slot that the lookup returns holds the block number that was asked
  for; with no dirty slot in the caches the lookup does return a slot.
\<close>

theorem cache_invariant_preserved:
  assumes "ctx_cache_inv s"
  shows "(\<forall>t<MFAT_NUM_CACHES.
            ctx_cache_inv (snd (get_cached_block s b t)) \<and>
            ctx_cache_inv (snd (read_block s b t)) \<and>
            (\<forall>i. fst (get_cached_block s b t) = Some i \<longrightarrow>
               i < length (block (caches (snd (get_cached_block s b t)) ! t)) \<and>
               blk_no (get_block (snd (get_cached_block s b t)) t i) = b) \<and>
            (no_dirty s \<longrightarrow> fst (get_cached_block s b t) \<noteq> None)) \<and>
         ctx_cache_inv (snd (mfat_mount s rd wr cst)) \<and>
         ctx_cache_inv (snd (mfat_mount s0 (Some rfun) (Some wfun) cst)) \<and>
         ctx_cache_inv (mfat_unmount s) \<and>
         ctx_cache_inv (snd (mfat_select_partition s p)) \<and>
         ctx_cache_inv (mfat_sync s) \<and>
         ctx_cache_inv (snd (mfat_fstat s fd)) \<and>
         ctx_cache_inv (snd (mfat_stat s path stat_given)) \<and>
         ctx_cache_inv (snd (mfat_open s path oflg)) \<and>
         ctx_cache_inv (snd (mfat_close s fd)) \<and>
         ctx_cache_inv (snd (mfat_read s fd nbyte)) \<and>
         ctx_cache_inv (snd (mfat_write s fd wbuf nbyte)) \<and>
         ctx_cache_inv (snd (mfat_lseek s fd offs whence)) \<and>
         (\<forall>t<MFAT_NUM_CACHES.
            distinct (pri (caches s ! t)) \<and>
            set (pri (caches s ! t)) = {0..<length (block (caches s ! t))} \<and>
            (\<forall>i<length (block (caches s ! t)). \<forall>j<length (block (caches s ! t)).
               i \<noteq> j \<and> state (get_block s t i) \<noteq> MFAT_INVALID \<and>
               state (get_block s t j) \<noteq> MFAT_INVALID
                 \<longrightarrow> blk_no (get_block s t i) \<noteq> blk_no (get_block s t j)))"
proof -
  have get: "ctx_cache_inv (snd (get_cached_block s b t)) \<and>
            ctx_cache_inv (snd (read_block s b t)) \<and>
            (\<forall>i. fst (get_cached_block s b t) = Some i \<longrightarrow>
               i < length (block (caches (snd (get_cached_block s b t)) ! t)) \<and>
               blk_no (get_block (snd (get_cached_block s b t)) t i) = b) \<and>
            (no_dirty s \<longrightarrow> fst (get_cached_block s b t) \<noteq> None)"
    if t: "t < MFAT_NUM_CACHES" for t
  proof -
    obtain r1 s1 where g: "get_cached_block s b t = (r1, s1)" by (cases "get_cached_block s b t")
    obtain r2 s2 where r: "read_block s b t = (r2, s2)" by (cases "read_block s b t")
    have "ctx_cache_inv s1" using assms t g by (rule get_cached_block_inv)
    moreover have "ctx_cache_inv s2"
      using cache_step_pres [OF read_block_step [OF t r]] assms by (rule cache_pres_inv)
    moreover have "i < length (block (caches s1 ! t)) \<and> blk_no (get_block s1 t i) = b"
      if "r1 = Some i" for i
      using get_cached_block_slot [OF assms t g [unfolded that]] .
    moreover have "r1 \<noteq> None" if "no_dirty s"
      using get_cached_block_clean [OF assms t that g] by auto
    ultimately show ?thesis using g r by simp
  qed
  have def: "distinct (pri (caches s ! t)) \<and>
            set (pri (caches s ! t)) = {0..<length (block (caches s ! t))} \<and>
            (\<forall>i<length (block (caches s ! t)). \<forall>j<length (block (caches s ! t)).
               i \<noteq> j \<and> state (get_block s t i) \<noteq> MFAT_INVALID \<and>
               state (get_block s t j) \<noteq> MFAT_INVALID
                 \<longrightarrow> blk_no (get_block s t i) \<noteq> blk_no (get_block s t j))"
    if t: "t < MFAT_NUM_CACHES" for t
    using assms t by (simp add: ctx_cache_inv_def cache_inv_def get_block_def)
  note p = cache_pres_inv [OF _ assms]
  show ?thesis
    using get def mfat_mount_cache_inv [OF assms, of rd wr cst]
      mfat_mount_establishes [of s0 rfun wfun cst]
      p [OF mfat_unmount_pres] p [OF mfat_select_partition_pres, of p]
      p [OF mfat_sync_pres] p [OF mfat_fstat_pres, of fd]
      p [OF mfat_stat_pres, of path stat_given] p [OF mfat_open_pres, of path oflg]
      p [OF mfat_close_pres, of fd] p [OF mfat_read_pres, of fd nbyte]
      p [OF mfat_write_pres, of fd wbuf nbyte] p [OF mfat_lseek_pres, of fd offs whence]
    by blast
qed

text \<open>
  On the example volume: the invariant holds of the cleared context, so the mount, the
  opening of \<^verbatim>\<open>HELLO.TXT\<close> and the read of 600 bytes keep it; after the opening the
  data cache holds the directory block 21 in its slot 1, where the lookup of block 21
  finds it, and the lookup of block 22 takes slot 0, which then holds block 22.
\<close>

theorem cache_invariant_preserved_witness:
  "ctx_cache_inv (cleared_ctx ex_read ex_write ex_medium) \<and>
   ctx_cache_inv ex_mounted \<and> ctx_cache_inv ex_hello_open \<and> ctx_cache_inv ex_hello_read \<and>
   fst (get_cached_block ex_hello_open 21 MFAT_CACHE_DATA) = Some 1 \<and>
   blk_no (get_block (snd (get_cached_block ex_hello_open 21 MFAT_CACHE_DATA)) MFAT_CACHE_DATA 1) = 21 \<and>
   fst (get_cached_block ex_hello_open 22 MFAT_CACHE_DATA) = Some 0 \<and>
   blk_no (get_block (snd (get_cached_block ex_hello_open 22 MFAT_CACHE_DATA)) MFAT_CACHE_DATA 0) = 22"
proof -
  have i0: "ctx_cache_inv (cleared_ctx ex_read ex_write ex_medium)"
    by (rule cleared_ctx_cache_inv)
  from cache_invariant_preserved [OF i0, where rd = "Some ex_read" and wr = "Some ex_write"
      and cst = ex_medium]
  have i1: "ctx_cache_inv ex_mounted" unfolding ex_mounted_def by blast
  from cache_invariant_preserved [OF i1, where path = "Some (bytes_of ''HELLO.TXT'')"
      and oflg = MFAT_O_RDONLY]
  have i2: "ctx_cache_inv ex_hello_open" unfolding ex_hello_open_def by blast
  from cache_invariant_preserved [OF i2, where fd = 0 and nbyte = 600]
  have i3: "ctx_cache_inv ex_hello_read" unfolding ex_hello_read_def by blast
  have g1: "fst (get_cached_block ex_hello_open 21 MFAT_CACHE_DATA) = Some 1" by code_simp
  have g2: "fst (get_cached_block ex_hello_open 22 MFAT_CACHE_DATA) = Some 0" by code_simp
  from cache_invariant_preserved [OF i2, where b = 21] g1 have
    b1: "blk_no (get_block (snd (get_cached_block ex_hello_open 21 MFAT_CACHE_DATA))
           MFAT_CACHE_DATA 1) = 21"
    by simp
  from cache_invariant_preserved [OF i2, where b = 22] g2 have
    b2: "blk_no (get_block (snd (get_cached_block ex_hello_open 22 MFAT_CACHE_DATA))
           MFAT_CACHE_DATA 0) = 22"
    by simp
  from i0 i1 i2 i3 g1 g2 b1 b2 show ?thesis by simp
qed

end
